theory Spec2Isabelle
  imports Main
begin

section \<open>Board engine\<close>

text \<open>
  The TypeScript sources (\<^verbatim>\<open>pasOpti.ts\<close> and its early-exit sibling) declare
  \<^verbatim>\<open>type Player = 1 | 2; type Cell = 0 | Player; type Board = Cell[][]\<close>
  with \<^verbatim>\<open>ROWS = 6\<close> and \<^verbatim>\<open>COLS = 7\<close>. Row 0 is the top of the grid and row
  \<^verbatim>\<open>ROWS - 1\<close> the bottom.
\<close>

datatype Player = P1 | P2

datatype Cell = Empty | Mark Player

type_synonym Board = "Cell list list"

definition ROWS :: nat where
  "ROWS = 6"

definition COLS :: nat where
  "COLS = 7"

definition createBoard :: Board where
  "createBoard = replicate ROWS (replicate COLS Empty)"

definition cloneBoard :: "Board \<Rightarrow> Board" where
  "cloneBoard board = map (\<lambda>row. row) board"

text \<open>
  \<^verbatim>\<open>board[row][col]\<close>. Inside the grid this is the stored cell. A column index past the
  end of a row reads \<^verbatim>\<open>undefined\<close> in JavaScript, which is strictly equal to neither
  \<^verbatim>\<open>0\<close> nor a player; \<open>None\<close> stands for it. On a board with fewer than
  \<^verbatim>\<open>ROWS\<close> rows the read of a missing row would throw; the model answers \<open>None\<close>
  there too, and is the source only on boards that have their \<^verbatim>\<open>ROWS\<close> rows. Every
  board of the program comes from \<^verbatim>\<open>createBoard\<close> and keeps its shape (see
  \<open>wellFormed\<close>), all loops range over the constants, and the properties below are
  stated for well-formed boards, where \<open>None\<close> never arises.
\<close>

definition cellAt :: "Board \<Rightarrow> nat \<Rightarrow> nat \<Rightarrow> Cell option" where
  "cellAt board row col =
     (if row < length board \<and> col < length (board ! row)
      then Some (board ! row ! col) else None)"

definition wellFormed :: "Board \<Rightarrow> bool" where
  "wellFormed board \<longleftrightarrow> length board = ROWS \<and> list_all (\<lambda>row. length row = COLS) board"

text \<open>
  \<^verbatim>\<open>for (let row = ROWS - 1; row >= 0; row--) if (board[row][col] === 0) return row;\<close>
  The third argument of \<open>scanRows\<close> is one more than the row about to be read.
\<close>

fun scanRows :: "Board \<Rightarrow> nat \<Rightarrow> nat \<Rightarrow> nat option" where
  "scanRows board col 0 = None"
| "scanRows board col (Suc row) =
     (if cellAt board row col = Some Empty then Some row else scanRows board col row)"

definition getAvailableRow :: "Board \<Rightarrow> nat \<Rightarrow> nat option" where
  "getAvailableRow board col = scanRows board col ROWS"

text \<open>
  \<^verbatim>\<open>board[row][col] = player\<close> on the caller's private copy. The explorers only pass a
  \<open>row\<close> obtained from \<open>getAvailableRow\<close>, which lies inside the grid.
\<close>

definition dropPiece :: "Board \<Rightarrow> nat \<Rightarrow> nat \<Rightarrow> Player \<Rightarrow> Board" where
  "dropPiece board row col player = board[row := (board ! row)[col := Mark player]]"

definition directions :: "(int \<times> int) list" where
  "directions = [(0, 1), (1, 0), (1, 1), (1, -1)]"

text \<open>The guarded read of the inner loop of \<^verbatim>\<open>isWinningMove\<close>.\<close>

definition holdsAt :: "Board \<Rightarrow> Player \<Rightarrow> int \<Rightarrow> int \<Rightarrow> bool" where
  "holdsAt board player nr nc \<longleftrightarrow>
     nr \<ge> 0 \<and> nr < int ROWS \<and> nc \<ge> 0 \<and> nc < int COLS \<and>
     cellAt board (nat nr) (nat nc) = Some (Mark player)"

definition countRun :: "Board \<Rightarrow> Player \<Rightarrow> nat \<Rightarrow> nat \<Rightarrow> int \<Rightarrow> int \<Rightarrow> nat" where
  "countRun board player r c dr dc =
     foldl (\<lambda>count i.
              if holdsAt board player (int r + dr * i) (int c + dc * i)
              then count + 1 else count)
           0 [0, 1, 2, 3]"

definition isWinningMove :: "Board \<Rightarrow> Player \<Rightarrow> bool" where
  "isWinningMove board player =
     list_ex (\<lambda>r.
       list_ex (\<lambda>c.
         cellAt board r c = Some (Mark player) \<and>
         list_ex (\<lambda>(dr, dc). countRun board player r c dr dc = 4) directions)
       [0..<COLS])
     [0..<ROWS]"

definition getValidColumns :: "Board \<Rightarrow> nat list" where
  "getValidColumns board = filter (\<lambda>col. getAvailableRow board col \<noteq> None) [0..<COLS]"

section \<open>Outcome model\<close>

datatype GameOutcome = WIN_P1 | WIN_P2 | DRAW

datatype GameNode = GameNode (move: int) (outcome: GameOutcome) (children: "GameNode list")

definition other :: "Player \<Rightarrow> Player" where
  "other player = (if player = P1 then P2 else P1)"

definition winOf :: "Player \<Rightarrow> GameOutcome" where
  "winOf player = (if player = P1 then WIN_P1 else WIN_P2)"

definition loseOf :: "Player \<Rightarrow> GameOutcome" where
  "loseOf player = (if player = P1 then WIN_P2 else WIN_P1)"

definition summarizeOutcomes :: "GameNode list \<Rightarrow> Player \<Rightarrow> GameOutcome" where
  "summarizeOutcomes nodes player =
     (let win = winOf player; lose = loseOf player in
      if list_ex (\<lambda>n. outcome n = win) nodes then win
      else if list_all (\<lambda>n. outcome n = lose) nodes then lose
      else DRAW)"

section \<open>Tree explorer\<close>

text \<open>
  \<^verbatim>\<open>getValidColumns(board).sort((a, b) => Math.abs(3 - a) - Math.abs(3 - b))\<close>.
  The sort of JavaScript is stable; so is \<open>sort_key\<close>.
\<close>

definition centerFirst :: "nat list \<Rightarrow> nat list" where
  "centerFirst cols = sort_key (\<lambda>a. \<bar>3 - int a\<bar>) cols"

definition sentinel :: GameNode where
  "sentinel = GameNode (-1) DRAW []"

definition emptyCells :: "Board \<Rightarrow> nat" where
  "emptyCells board = sum_list (map (\<lambda>row. length (filter (\<lambda>c. c = Empty) row)) board)"

lemma scanRows_Some:
  "scanRows board col n = Some row \<Longrightarrow> row < n \<and> cellAt board row col = Some Empty"
  by (induction n) (auto split: if_splits simp: less_Suc_eq)

lemma getAvailableRow_Some:
  "getAvailableRow board col = Some row \<Longrightarrow> row < ROWS \<and> cellAt board row col = Some Empty"
  unfolding getAvailableRow_def by (rule scanRows_Some)

lemma filter_update_less:
  "i < length xs \<Longrightarrow> xs ! i = Empty \<Longrightarrow>
   Suc (length (filter (\<lambda>c. c = Empty) (xs[i := Mark p]))) = length (filter (\<lambda>c. c = Empty) xs)"
proof (induction xs arbitrary: i)
  case Nil
  then show ?case by simp
next
  case (Cons x xs)
  then show ?case by (cases i) auto
qed

lemma emptyCells_update:
  "r < length board \<Longrightarrow>
   emptyCells (board[r := row']) + length (filter (\<lambda>c. c = Empty) (board ! r))
   = emptyCells board + length (filter (\<lambda>c. c = Empty) row')"
proof (induction board arbitrary: r)
  case Nil
  then show ?case by simp
next
  case (Cons a board)
  show ?case
  proof (cases r)
    case 0
    then show ?thesis by (simp add: emptyCells_def)
  next
    case (Suc k)
    with Cons.prems have "k < length board" by simp
    from Cons.IH [OF this] Suc show ?thesis by (simp add: emptyCells_def)
  qed
qed

lemma emptyCells_dropPiece:
  assumes "cellAt board row col = Some Empty"
  shows "Suc (emptyCells (dropPiece board row col player)) = emptyCells board"
proof -
  from assms have r: "row < length board" and c: "col < length (board ! row)"
    and e: "board ! row ! col = Empty"
    by (auto simp: cellAt_def split: if_splits)
  from emptyCells_update [OF r, of "(board ! row)[col := Mark player]"]
    filter_update_less [OF c e, of player]
  show ?thesis by (simp add: dropPiece_def)
qed

text \<open>
  \<^verbatim>\<open>exploreGameTree\<close> of \<^verbatim>\<open>pasOpti.ts\<close>: one node per candidate column, pushed in
  centre-first order. The depth is a JavaScript number holding an integer (8 at the call
  site, \<^verbatim>\<open>depth - 1\<close> below), compared with \<^verbatim>\<open>=== 0\<close>; nothing stops a caller from
  passing a negative one.
\<close>

function exploreGameTree :: "Board \<Rightarrow> Player \<Rightarrow> int \<Rightarrow> GameNode list" where
  "exploreGameTree board currentPlayer depth =
     (let opponent = other currentPlayer;
          validCols = centerFirst (getValidColumns board)
      in if depth = 0 \<or> validCols = [] then [sentinel]
         else concat (map (\<lambda>col.
                (case getAvailableRow board col of
                   None \<Rightarrow> []
                 | Some row \<Rightarrow>
                     (let newBoard = dropPiece (cloneBoard board) row col currentPlayer in
                      if isWinningMove newBoard currentPlayer
                      then [GameNode (int col) (winOf currentPlayer) []]
                      else (let nextMoves = exploreGameTree newBoard opponent (depth - 1)
                            in [GameNode (int col) (summarizeOutcomes nextMoves currentPlayer)
                                  nextMoves]))))
              validCols))"
  by pat_completeness auto
termination
proof (relation "measure (\<lambda>(board, p, d). emptyCells board)", goal_cases)
  case 1
  show ?case by simp
next
  case (2 board currentPlayer depth opponent validCols col row newBoard)
  from 2 have "cellAt board row col = Some Empty"
    using getAvailableRow_Some by simp
  from emptyCells_dropPiece [OF this, of currentPlayer] 2 show ?case
    by (simp add: cloneBoard_def)
qed

text \<open>
  The replies built inline by \<^verbatim>\<open>exploreGameTreeSmart\<close> when \<^verbatim>\<open>depth <= 3\<close>: one
  childless node per valid column of \<open>newBoard\<close>, in ascending column order. The
  callbacks passed to \<^verbatim>\<open>Promise.all\<close> contain no \<^verbatim>\<open>await\<close>, so each runs to
  completion in turn and the results come back in index order; \<^verbatim>\<open>filter(Boolean)\<close>
  drops the \<^verbatim>\<open>null\<close> entries.
\<close>

definition shallowReplies :: "Board \<Rightarrow> Player \<Rightarrow> GameNode list" where
  "shallowReplies newBoard opponent =
     concat (map (\<lambda>subCol.
       (case getAvailableRow newBoard subCol of
          None \<Rightarrow> []
        | Some subRow \<Rightarrow>
            (let subBoard = dropPiece (cloneBoard newBoard) subRow subCol opponent in
             if isWinningMove subBoard opponent
             then [GameNode (int subCol) (winOf opponent) []]
             else [GameNode (int subCol) DRAW []])))
       (getValidColumns newBoard))"

text \<open>
  \<^verbatim>\<open>exploreGameTreeSmart\<close>: the same expansion with early returns. \<open>smartLoop\<close> is
  the \<^verbatim>\<open>for (const col of validCols)\<close> loop; its last two arguments are the columns
  still to visit and the \<^verbatim>\<open>results\<close> array pushed so far.
\<close>

function exploreGameTreeSmart :: "Board \<Rightarrow> Player \<Rightarrow> int \<Rightarrow> GameNode list"
  and smartLoop :: "Board \<Rightarrow> Player \<Rightarrow> int \<Rightarrow> nat list \<Rightarrow> GameNode list \<Rightarrow> GameNode list"
where
  "exploreGameTreeSmart board currentPlayer depth =
     (let validCols = centerFirst (getValidColumns board)
      in if depth = 0 \<or> validCols = [] then [sentinel]
         else smartLoop board currentPlayer depth validCols [])"
| "smartLoop board currentPlayer depth [] results = results"
| "smartLoop board currentPlayer depth (col # cols) results =
     (case getAvailableRow board col of
        None \<Rightarrow> smartLoop board currentPlayer depth cols results
      | Some row \<Rightarrow>
          (let newBoard = dropPiece (cloneBoard board) row col currentPlayer in
           if isWinningMove newBoard currentPlayer
           then [GameNode (int col) (winOf currentPlayer) []]
           else (let children =
                       (if depth \<le> 3 then shallowReplies newBoard (other currentPlayer)
                        else exploreGameTreeSmart newBoard (other currentPlayer) (depth - 1));
                     outcome = summarizeOutcomes children currentPlayer;
                     result = GameNode (int col) outcome children
                 in if outcome = winOf currentPlayer then [result]
                    else smartLoop board currentPlayer depth cols (results @ [result]))))"
  by pat_completeness auto
termination
proof (relation "measures [
    (\<lambda>x. case x of Inl (board, p, d) \<Rightarrow> emptyCells board
                  | Inr (board, p, d, cols, res) \<Rightarrow> emptyCells board),
    (\<lambda>x. case x of Inl (board, p, d) \<Rightarrow> Suc 0 | Inr (board, p, d, cols, res) \<Rightarrow> 0),
    (\<lambda>x. case x of Inl (board, p, d) \<Rightarrow> 0 | Inr (board, p, d, cols, res) \<Rightarrow> length cols)]",
    goal_cases)
  case 1
  show ?case by simp
next
  case 2
  show ?case by simp
next
  case 3
  show ?case by simp
next
  case (4 board currentPlayer depth col cols results row newBoard)
  from 4 have "cellAt board row col = Some Empty"
    using getAvailableRow_Some by simp
  from emptyCells_dropPiece [OF this, of currentPlayer] 4 show ?case
    by (simp add: cloneBoard_def)
next
  case 5
  show ?case by simp
qed

section \<open>Path extractor\<close>

text \<open>
  The inner \<^verbatim>\<open>dfs\<close> of \<^verbatim>\<open>findShortestWinningPath\<close>. The closure variable
  \<^verbatim>\<open>shortest\<close> is threaded through as the last argument and returned; \<open>None\<close> is
  \<^verbatim>\<open>null\<close>. The parameters \<^verbatim>\<open>depth\<close> and \<^verbatim>\<open>currentPlayer\<close> are passed along as
  in the source, which never reads them.
\<close>

function dfs ::
  "GameOutcome \<Rightarrow> int list \<Rightarrow> GameNode list \<Rightarrow> nat \<Rightarrow> Player \<Rightarrow> int list option
     \<Rightarrow> int list option" where
  "dfs target path [] depth currentPlayer shortest = shortest"
| "dfs target path (node # rest) depth currentPlayer shortest =
     (let newPath = path @ [move node] in
      dfs target path rest depth currentPlayer
        (if outcome node = target \<and> length (children node) = 0
         then (case shortest of
                 None \<Rightarrow> Some newPath
               | Some s \<Rightarrow> if length newPath < length s then Some newPath else shortest)
         else if length (children node) > 0
         then dfs target newPath (children node) (depth + 1) (other currentPlayer) shortest
         else shortest))"
  by pat_completeness auto
termination
proof (relation "measure (\<lambda>(t, path, nodes, d, p, s). size_list size nodes)", goal_cases)
  case 1
  show ?case by simp
next
  case (2 target path node rest depth currentPlayer shortest newPath)
  show ?case by (cases node) simp
next
  case (3 target path node rest depth currentPlayer shortest newPath)
  show ?case by simp
qed

definition findShortestWinningPath :: "GameNode list \<Rightarrow> GameOutcome \<Rightarrow> int list option" where
  "findShortestWinningPath nodes target = dfs target [] nodes 0 P1 None"

section \<open>The loops of the Go programs\<close>

text \<open>
  \<^verbatim>\<open>puissance4.go\<close> holds two Go programs with the functions of the TypeScript sources.
  Where a loop is written differently it is modelled here as written.
  \<^verbatim>\<open>summarizeOutcomes\<close> of the first program makes one pass with the flag
  \<^verbatim>\<open>allLose\<close>.
\<close>

fun summarizeLoop :: "GameOutcome \<Rightarrow> GameOutcome \<Rightarrow> GameNode list \<Rightarrow> bool \<Rightarrow> GameOutcome" where
  "summarizeLoop win lose [] allLose = (if allLose then lose else DRAW)"
| "summarizeLoop win lose (node # rest) allLose =
     (if outcome node = win then win
      else summarizeLoop win lose rest (if outcome node \<noteq> lose then False else allLose))"

definition summarizeOutcomesGo :: "GameNode list \<Rightarrow> Player \<Rightarrow> GameOutcome" where
  "summarizeOutcomesGo nodes player =
     (let win = (if player = P2 then WIN_P2 else WIN_P1);
          lose = (if player = P2 then WIN_P1 else WIN_P2)
      in summarizeLoop win lose nodes True)"

text \<open>
  \<^verbatim>\<open>isWinningMove\<close> of the second program walks from the start cell and leaves the
  counting loop at the first cell that is outside the grid or not the player's.
\<close>

fun runLoop :: "Board \<Rightarrow> Player \<Rightarrow> int \<Rightarrow> int \<Rightarrow> int \<Rightarrow> int \<Rightarrow> nat \<Rightarrow> nat \<Rightarrow> nat" where
  "runLoop board p dr dc nr nc 0 count = count"
| "runLoop board p dr dc nr nc (Suc k) count =
     (if nr < 0 \<or> nr \<ge> int ROWS \<or> nc < 0 \<or> nc \<ge> int COLS \<or>
         cellAt board (nat nr) (nat nc) \<noteq> Some (Mark p)
      then count
      else runLoop board p dr dc (nr + dr) (nc + dc) k (count + 1))"

definition isWinningMoveGo :: "Board \<Rightarrow> Player \<Rightarrow> bool" where
  "isWinningMoveGo board player =
     list_ex (\<lambda>r.
       list_ex (\<lambda>c.
         cellAt board r c = Some (Mark player) \<and>
         list_ex (\<lambda>(dr, dc). runLoop board player dr dc (int r) (int c) 4 0 = 4) directions)
       [0..<COLS])
     [0..<ROWS]"

section \<open>The stack-based path extractor\<close>

text \<open>
  The second Go program of \<^verbatim>\<open>puissance4.go\<close> replaces the recursive \<^verbatim>\<open>dfs\<close> by a
  loop over an explicit stack of (path, children, player) items. A path is a Go slice: a
  view, given by an array, a length and a capacity, of a backing array that other slices
  may share. The heap lists the backing arrays; the address of an array is its index.
\<close>

record GoSlice =
  sArr :: nat
  sLen :: nat
  sCap :: nat

type_synonym GoHeap = "int list list"

text \<open>
  \<^verbatim>\<open>append(s, x)\<close>: when the capacity allows, the element is written in place into
  the backing array of \<open>s\<close>, which every slice on that array sees; otherwise the elements
  are copied to a fresh array. \<open>growCap\<close> is the capacity the Go runtime gives the fresh
  array for slices of fewer than 256 machine integers: the length needed when that
  exceeds twice the old capacity, else twice the old capacity (so 1, 2, 4, 8 when
  appending one element at a time to \<^verbatim>\<open>[]int{}\<close>).
\<close>

definition growCap :: "nat \<Rightarrow> nat \<Rightarrow> nat" where
  "growCap oldCap newLen = (if newLen > 2 * oldCap then newLen else 2 * oldCap)"

definition goAppend :: "GoHeap \<Rightarrow> GoSlice \<Rightarrow> int \<Rightarrow> GoHeap \<times> GoSlice" where
  "goAppend heap s x =
     (if sLen s < sCap s
      then (heap[sArr s := (heap ! sArr s)[sLen s := x]], s\<lparr>sLen := sLen s + 1\<rparr>)
      else (let newCap = growCap (sCap s) (sLen s + 1);
                fresh = take (sLen s) (heap ! sArr s) @ [x] @ replicate (newCap - (sLen s + 1)) 0
            in (heap @ [fresh], \<lparr>sArr = length heap, sLen = sLen s + 1, sCap = newCap\<rparr>)))"

text \<open>The elements a slice shows; \<^verbatim>\<open>append([]int(nil), newPath...)\<close> copies them.\<close>

definition sliceValue :: "GoHeap \<Rightarrow> GoSlice \<Rightarrow> int list" where
  "sliceValue heap s = take (sLen s) (heap ! sArr s)"

type_synonym GoItem = "GoSlice \<times> GameNode list \<times> Player"

text \<open>
  The inner \<^verbatim>\<open>for _, node := range item.children\<close> loop. The state is the heap, the
  stack and \<^verbatim>\<open>shortest\<close> (\<open>None\<close> is \<^verbatim>\<open>nil\<close>; it only ever holds a fresh copy, so
  it is kept as a value). \<^verbatim>\<open>newPath := append(item.path, node.Move)\<close> is pushed on the
  stack as it is, without a copy.
\<close>

fun goChildren ::
  "GameOutcome \<Rightarrow> GoSlice \<Rightarrow> Player \<Rightarrow> GameNode list \<Rightarrow> GoHeap \<times> GoItem list \<times> int list option
     \<Rightarrow> GoHeap \<times> GoItem list \<times> int list option" where
  "goChildren target path player [] state = state"
| "goChildren target path player (node # rest) (heap, stack, shortest) =
     (let (heap', newPath) = goAppend heap path (move node) in
      if outcome node = target \<and> length (children node) = 0
      then goChildren target path player rest
             (heap', stack,
              (case shortest of
                 None \<Rightarrow> Some (sliceValue heap' newPath)
               | Some s \<Rightarrow> if sLen newPath < length s then Some (sliceValue heap' newPath)
                           else shortest))
      else if length (children node) > 0
      then goChildren target path player rest
             (heap', stack @ [(newPath, children node, other player)], shortest)
      else goChildren target path player rest (heap', stack, shortest))"

text \<open>The measure of the outer loop: the nodes still reachable from the stack.\<close>

definition stackWeight :: "GoItem list \<Rightarrow> nat" where
  "stackWeight stack = sum_list (map (\<lambda>(path, nodes, player). Suc (size_list size nodes)) stack)"

lemma stackWeight_snoc:
  "stackWeight (stack @ [(path, nodes, player)]) = stackWeight stack + Suc (size_list size nodes)"
  by (simp add: stackWeight_def)

lemma stackWeight_goChildren:
  "stackWeight (fst (snd (goChildren target path player nodes (heap, stack, shortest))))
   \<le> stackWeight stack + size_list size nodes"
proof (induction nodes arbitrary: heap stack shortest)
  case Nil
  show ?case by simp
next
  case (Cons node nodes)
  obtain heap' newPath where ap: "goAppend heap path (move node) = (heap', newPath)"
    by (cases "goAppend heap path (move node)")
  have sz: "Suc (size_list size (children node)) \<le> size node" by (cases node) simp
  consider (hit) "outcome node = target \<and> length (children node) = 0"
    | (push) "\<not> (outcome node = target \<and> length (children node) = 0)" "length (children node) > 0"
    | (skip) "\<not> (outcome node = target \<and> length (children node) = 0)" "\<not> length (children node) > 0"
    by blast
  then show ?case
  proof cases
    case hit
    let ?sh = "case shortest of
                 None \<Rightarrow> Some (sliceValue heap' newPath)
               | Some s \<Rightarrow> if sLen newPath < length s then Some (sliceValue heap' newPath)
                           else shortest"
    from hit ap have "goChildren target path player (node # nodes) (heap, stack, shortest) =
        goChildren target path player nodes (heap', stack, ?sh)" by simp
    with Cons [of heap' stack ?sh] show ?thesis by simp
  next
    case push
    let ?st = "stack @ [(newPath, children node, other player)]"
    from push ap have "goChildren target path player (node # nodes) (heap, stack, shortest) =
        goChildren target path player nodes (heap', ?st, shortest)" by simp
    with Cons [of heap' ?st shortest] sz show ?thesis
      by (simp add: stackWeight_snoc)
  next
    case skip
    from skip ap have "goChildren target path player (node # nodes) (heap, stack, shortest) =
        goChildren target path player nodes (heap', stack, shortest)" by simp
    with Cons [of heap' stack shortest] show ?thesis by simp
  qed
qed

text \<open>The outer \<^verbatim>\<open>for len(stack) > 0\<close> loop: pop the last item, run the inner loop.\<close>

function goLoop :: "GameOutcome \<Rightarrow> GoHeap \<Rightarrow> GoItem list \<Rightarrow> int list option \<Rightarrow> int list option" where
  "goLoop target heap stack shortest =
     (if length stack > 0
      then (let item = last stack;
                stack' = butlast stack;
                (heap', stack'', shortest') =
                   goChildren target (fst item) (snd (snd item)) (fst (snd item))
                     (heap, stack', shortest)
            in goLoop target heap' stack'' shortest')
      else shortest)"
  by pat_completeness auto
termination
proof (relation "measure (\<lambda>(target, heap, stack, shortest). stackWeight stack)", goal_cases)
  case 1
  show ?case by simp
next
  case (2 target heap stack shortest item stack' x heap' y stack'' shortest')
  from 2 have ne: "stack \<noteq> []" by simp
  then have split: "stack = stack' @ [item]" using 2 by simp
  obtain path nodes player where item: "item = (path, nodes, player)" by (cases item)
  from 2 item have "stack'' = fst (snd (goChildren target path player nodes (heap, stack', shortest)))"
    by (metis fst_conv snd_conv)
  with stackWeight_goChildren [of target path player nodes heap stack' shortest]
  have "stackWeight stack'' \<le> stackWeight stack' + size_list size nodes" by simp
  moreover have "stackWeight stack = stackWeight stack' + Suc (size_list size nodes)"
    by (simp add: split item stackWeight_def)
  ultimately show ?case by simp
qed

definition findShortestWinningPathGo :: "GameNode list \<Rightarrow> GameOutcome \<Rightarrow> int list option" where
  "findShortestWinningPathGo nodes target =
     goLoop target [[]] [(\<lparr>sArr = 0, sLen = 0, sCap = 0\<rparr>, nodes, P1)] None"

text \<open>A forest with one hit for \<open>WIN_P1\<close>, five plies deep, next to a drawn leaf.\<close>

definition chain :: "GameNode list" where
  "chain = [GameNode 0 DRAW [GameNode 1 DRAW [GameNode 2 DRAW
              [GameNode 3 DRAW [GameNode 5 WIN_P1 []], GameNode 4 DRAW []]]]]"

declare goLoop.simps [simp del]

section \<open>Notions used to state the properties\<close>

text \<open>
  The gravity invariant of the data model: an occupied cell that is not in the bottom row
  has an occupied cell directly below it.
\<close>

definition gravity :: "Board \<Rightarrow> bool" where
  "gravity board \<longleftrightarrow>
     (\<forall>col\<in>{0..<COLS}. \<forall>row\<in>{0..<ROWS}.
        cellAt board row col \<noteq> Some Empty \<longrightarrow> Suc row < ROWS \<longrightarrow>
        cellAt board (Suc row) col \<noteq> Some Empty)"

text \<open>Concrete positions used as test inputs.\<close>

definition stacked :: Board where
  "stacked = [[Empty, Empty, Empty, Mark P2, Empty, Empty, Empty],
              [Empty, Empty, Empty, Mark P1, Empty, Empty, Empty],
              [Empty, Empty, Empty, Mark P2, Empty, Empty, Empty],
              [Empty, Empty, Empty, Mark P1, Empty, Empty, Empty],
              [Empty, Empty, Empty, Mark P2, Empty, Empty, Empty],
              [Empty, Empty, Mark P2, Mark P1, Mark P1, Empty, Empty]]"

text \<open>
  The tree invariant: every node of the forest that has children carries the summary of
  its children for the player who moved at that ply, the movers alternating from one ply
  to the next.
\<close>

fun treeInvariant :: "Player \<Rightarrow> GameNode list \<Rightarrow> bool" where
  "treeInvariant mover [] = True"
| "treeInvariant mover (GameNode mv oc cs # rest) =
     ((cs \<noteq> [] \<longrightarrow> oc = summarizeOutcomes cs mover) \<and>
      treeInvariant (other mover) cs \<and> treeInvariant mover rest)"

text \<open>The number of plies of the deepest branch of a forest.\<close>

fun forestHeight :: "GameNode list \<Rightarrow> nat" where
  "forestHeight [] = 0"
| "forestHeight (GameNode mv oc cs # rest) = max (Suc (forestHeight cs)) (forestHeight rest)"

text \<open>
  The node \<^verbatim>\<open>exploreGameTree\<close> pushes for a valid column (the body of its loop), and
  the children \<^verbatim>\<open>exploreGameTreeSmart\<close> computes for a candidate that is not an
  immediate win; both only name parts of the functions above.
\<close>

definition plainNode :: "Board \<Rightarrow> Player \<Rightarrow> int \<Rightarrow> nat \<Rightarrow> GameNode" where
  "plainNode board p depth col =
     (let newBoard = dropPiece board (the (getAvailableRow board col)) col p in
      if isWinningMove newBoard p then GameNode (int col) (winOf p) []
      else GameNode (int col)
             (summarizeOutcomes (exploreGameTree newBoard (other p) (depth - 1)) p)
             (exploreGameTree newBoard (other p) (depth - 1)))"

definition smartReplies :: "Board \<Rightarrow> Player \<Rightarrow> int \<Rightarrow> GameNode list" where
  "smartReplies newBoard opponent depth =
     (if depth \<le> 3 then shallowReplies newBoard opponent
      else exploreGameTreeSmart newBoard opponent (depth - 1))"

definition threeInRow :: Board where
  "threeInRow = [[Empty, Empty, Empty, Empty, Empty, Empty, Empty],
                 [Empty, Empty, Empty, Empty, Empty, Empty, Empty],
                 [Empty, Empty, Empty, Empty, Empty, Empty, Empty],
                 [Empty, Empty, Empty, Empty, Empty, Empty, Empty],
                 [Empty, Empty, Empty, Empty, Empty, Empty, Empty],
                 [Empty, Mark P1, Mark P1, Mark P1, Mark P2, Mark P2, Mark P2]]"

definition fourInRow :: Board where
  "fourInRow = [[Empty, Empty, Empty, Empty, Empty, Empty, Empty],
                [Empty, Empty, Empty, Empty, Empty, Empty, Empty],
                [Empty, Empty, Empty, Empty, Empty, Empty, Empty],
                [Empty, Empty, Empty, Empty, Empty, Empty, Empty],
                [Empty, Empty, Empty, Empty, Empty, Empty, Empty],
                [Mark P1, Mark P1, Mark P1, Mark P1, Mark P2, Mark P2, Mark P2]]"

definition threeStack :: Board where
  "threeStack = [[Empty, Empty, Empty, Empty, Empty, Empty, Empty],
                 [Empty, Empty, Empty, Empty, Empty, Empty, Empty],
                 [Empty, Empty, Empty, Empty, Empty, Empty, Empty],
                 [Empty, Empty, Mark P1, Empty, Empty, Empty, Empty],
                 [Empty, Empty, Mark P1, Empty, Empty, Empty, Empty],
                 [Mark P2, Mark P2, Mark P1, Empty, Empty, Empty, Mark P2]]"

definition fullBoard :: Board where
  "fullBoard = replicate ROWS (replicate COLS (Mark P2))"

text \<open>
  \<open>hitAt target forest path\<close>: following \<open>path\<close> from the roots of \<open>forest\<close>, one
  move per ply, ends on a hit, that is a node whose outcome is \<open>target\<close> and which has no
  children. \<open>allNodes\<close> lists every node of a forest, at any depth, and \<open>hitPaths\<close>
  the root paths of its hits in traversal order, each prefixed by \<open>path\<close>.
\<close>

inductive hitAt :: "GameOutcome \<Rightarrow> GameNode list \<Rightarrow> int list \<Rightarrow> bool"
  for target :: GameOutcome where
  hit_here: "node \<in> set forest \<Longrightarrow> outcome node = target \<Longrightarrow> children node = [] \<Longrightarrow>
             hitAt target forest [move node]"
| hit_below: "node \<in> set forest \<Longrightarrow> hitAt target (children node) path \<Longrightarrow>
              hitAt target forest (move node # path)"

fun allNodes :: "GameNode list \<Rightarrow> GameNode list" where
  "allNodes [] = []"
| "allNodes (GameNode mv oc cs # rest) = GameNode mv oc cs # allNodes cs @ allNodes rest"

fun hitPaths :: "GameOutcome \<Rightarrow> int list \<Rightarrow> GameNode list \<Rightarrow> int list list" where
  "hitPaths target path [] = []"
| "hitPaths target path (GameNode mv oc cs # rest) =
     (if oc = target \<and> cs = [] then [path @ [mv]] else []) @
     hitPaths target (path @ [mv]) cs @ hitPaths target path rest"

text \<open>The update of \<^verbatim>\<open>shortest\<close> made by \<^verbatim>\<open>dfs\<close> at a hit.\<close>

definition better :: "int list option \<Rightarrow> int list \<Rightarrow> int list option" where
  "better shortest newPath =
     (case shortest of
        None \<Rightarrow> Some newPath
      | Some s \<Rightarrow> if length newPath < length s then Some newPath else shortest)"

definition twoHits :: "GameNode list" where
  "twoHits = [GameNode 3 DRAW [GameNode 2 WIN_P1 [], GameNode 4 DRAW []], GameNode 4 WIN_P1 []]"

text \<open>
  \<open>winningLine board mover path target\<close>: playing the moves of \<open>path\<close> in turn from
  \<open>board\<close>, the first by \<open>mover\<close> and then alternately, every move is dropped in a
  column of the grid that is not full, no move before the last wins, and the last move
  wins for the player whose winning outcome is \<open>target\<close>.
\<close>

fun winningLine :: "Board \<Rightarrow> Player \<Rightarrow> int list \<Rightarrow> GameOutcome \<Rightarrow> bool" where
  "winningLine board mover [] target = False"
| "winningLine board mover (m # ms) target =
     (0 \<le> m \<and> nat m < COLS \<and>
      (case getAvailableRow board (nat m) of
         None \<Rightarrow> False
       | Some row \<Rightarrow>
           (let newBoard = dropPiece board row (nat m) mover in
            if isWinningMove newBoard mover then ms = [] \<and> target = winOf mover
            else winningLine newBoard (other mover) ms target)))"

text \<open>
  Notions for counting marks. \<open>markAt board q pos\<close>: the cell \<open>pos\<close> = (row, column) of
  the grid holds the mark of \<open>q\<close>. \<open>marksIn board q ms\<close>: every mark of \<open>q\<close> on the
  board is listed in \<open>ms\<close>; \<open>piecesIn board ps\<close>: every mark of either player is
  listed in \<open>ps\<close>. \<open>columnCells c\<close> are the cells of column \<open>c\<close>.
\<close>

definition markAt :: "Board \<Rightarrow> Player \<Rightarrow> nat \<times> nat \<Rightarrow> bool" where
  "markAt board q pos \<longleftrightarrow>
     fst pos < ROWS \<and> snd pos < COLS \<and> cellAt board (fst pos) (snd pos) = Some (Mark q)"

definition marksIn :: "Board \<Rightarrow> Player \<Rightarrow> (nat \<times> nat) list \<Rightarrow> bool" where
  "marksIn board q ms \<longleftrightarrow> (\<forall>pos. markAt board q pos \<longrightarrow> pos \<in> set ms)"

definition piecesIn :: "Board \<Rightarrow> (nat \<times> nat) list \<Rightarrow> bool" where
  "piecesIn board ps \<longleftrightarrow> (\<forall>pos q. markAt board q pos \<longrightarrow> pos \<in> set ps)"

definition columnCells :: "nat \<Rightarrow> (nat \<times> nat) set" where
  "columnCells c = (\<lambda>r. (r, c)) ` {..<ROWS}"

text \<open>
  \<open>innerNot q forest\<close>: no node of the forest, at any depth, that has children carries
  the winning outcome of \<open>q\<close>. \<open>innerDraw forest\<close>: every node of the forest, at any
  depth, that has children has outcome \<open>DRAW\<close>, so that the only decisive nodes are
  childless ones, where a placement completed four in a line.
\<close>

fun innerNot :: "Player \<Rightarrow> GameNode list \<Rightarrow> bool" where
  "innerNot q [] = True"
| "innerNot q (GameNode mv oc cs # rest) =
     ((cs \<noteq> [] \<longrightarrow> oc \<noteq> winOf q) \<and> innerNot q cs \<and> innerNot q rest)"

fun innerDraw :: "GameNode list \<Rightarrow> bool" where
  "innerDraw [] = True"
| "innerDraw (GameNode mv oc cs # rest) =
     ((cs \<noteq> [] \<longrightarrow> oc = DRAW) \<and> innerDraw cs \<and> innerDraw rest)"

section \<open>Properties of the board engine and the outcome model\<close>

lemma upt_COLS: "[0..<COLS] = [0, 1, 2, 3, 4, 5, 6]"
  by (simp add: COLS_def upt_rec)

lemma upt_ROWS: "[0..<ROWS] = [0, 1, 2, 3, 4, 5]"
  by (simp add: ROWS_def upt_rec)

lemma winOf_neq_loseOf: "winOf M \<noteq> loseOf M" "winOf M \<noteq> DRAW" "loseOf M \<noteq> DRAW"
  by (simp_all add: winOf_def loseOf_def)

text \<open>
  Claim C3. For every list of child nodes and every mover \<open>M\<close>, \<open>summarizeOutcomes\<close>
  returns \<open>M\<close>'s winning outcome iff at least one child carries it; when none does, it
  returns \<open>M\<close>'s losing outcome iff every child carries the losing outcome; and when
  neither holds it returns \<open>DRAW\<close>.
\<close>

theorem summarizeOutcomes_correct:
  "(summarizeOutcomes nodes M = winOf M \<longleftrightarrow> (\<exists>n\<in>set nodes. outcome n = winOf M)) \<and>
   (\<not> (\<exists>n\<in>set nodes. outcome n = winOf M) \<longrightarrow>
      (summarizeOutcomes nodes M = loseOf M \<longleftrightarrow> (\<forall>n\<in>set nodes. outcome n = loseOf M))) \<and>
   (\<not> (\<exists>n\<in>set nodes. outcome n = winOf M) \<and> \<not> (\<forall>n\<in>set nodes. outcome n = loseOf M) \<longrightarrow>
      summarizeOutcomes nodes M = DRAW)"
  using winOf_neq_loseOf [of M]
  by (auto simp: summarizeOutcomes_def Let_def list_ex_iff list_all_iff)

theorem summarizeOutcomes_correct_witness:
  "\<not> (\<exists>n\<in>set [GameNode 3 WIN_P2 [], GameNode 2 DRAW []]. outcome n = winOf P1) \<and>
   \<not> (\<forall>n\<in>set [GameNode 3 WIN_P2 [], GameNode 2 DRAW []]. outcome n = loseOf P1) \<and>
   summarizeOutcomes [GameNode 3 WIN_P2 [], GameNode 2 DRAW []] P1 = DRAW"
  using summarizeOutcomes_correct [of "[GameNode 3 WIN_P2 [], GameNode 2 DRAW []]" P1]
  by (simp add: winOf_def loseOf_def)

text \<open>The one-pass loop of the Go program computes the same summary.\<close>

lemma summarizeLoop_eq:
  "win \<noteq> lose \<Longrightarrow> win \<noteq> DRAW \<Longrightarrow>
   summarizeLoop win lose nodes allLose =
     (if list_ex (\<lambda>n. outcome n = win) nodes then win
      else if allLose \<and> list_all (\<lambda>n. outcome n = lose) nodes then lose else DRAW)"
  by (induction nodes arbitrary: allLose) auto

lemma summarizeOutcomesGo_eq: "summarizeOutcomesGo nodes player = summarizeOutcomes nodes player"
  by (cases player) (simp_all add: summarizeOutcomesGo_def summarizeOutcomes_def
      summarizeLoop_eq winOf_def loseOf_def)

lemma scanRows_None:
  "scanRows board col n = None \<longleftrightarrow> (\<forall>r<n. cellAt board r col \<noteq> Some Empty)"
  by (induction n) (auto simp: less_Suc_eq)

lemma scanRows_greatest:
  "scanRows board col n = Some row \<Longrightarrow> r < n \<Longrightarrow> cellAt board r col = Some Empty \<Longrightarrow> r \<le> row"
  by (induction n) (auto simp: less_Suc_eq split: if_splits)

lemma gravity_below:
  assumes "gravity board" "col < COLS" "cellAt board 0 col \<noteq> Some Empty"
  shows "r < ROWS \<Longrightarrow> cellAt board r col \<noteq> Some Empty"
proof (induction r)
  case 0
  from assms(3) show ?case .
next
  case (Suc r)
  then have "r < ROWS" "cellAt board r col \<noteq> Some Empty" by simp_all
  with assms(1,2) Suc.prems show ?case
    unfolding gravity_def by (metis atLeastLessThan_iff le0)
qed

text \<open>
  Claim C7. On a well-formed board that satisfies the gravity invariant, and for a column
  inside the grid, \<open>getAvailableRow\<close> returns \<open>None\<close> iff no cell of the column is
  empty, which is the case iff the top cell (row 0) is occupied; and when it returns a
  row, that row is empty and is the empty cell nearest the bottom: every empty row of the
  column has an index at most the one returned (row \<open>ROWS - 1\<close> is the bottom).
\<close>

theorem getAvailableRow_correct:
  assumes "wellFormed board" "gravity board" "col < COLS"
  shows "(getAvailableRow board col = None \<longleftrightarrow> (\<forall>r<ROWS. cellAt board r col \<noteq> Some Empty)) \<and>
         (getAvailableRow board col = None \<longleftrightarrow> cellAt board 0 col \<noteq> Some Empty) \<and>
         (\<forall>row. getAvailableRow board col = Some row \<longrightarrow>
            row < ROWS \<and> cellAt board row col = Some Empty \<and>
            (\<forall>r<ROWS. cellAt board r col = Some Empty \<longrightarrow> r \<le> row))"
proof (intro conjI allI impI)
  show full: "getAvailableRow board col = None \<longleftrightarrow> (\<forall>r<ROWS. cellAt board r col \<noteq> Some Empty)"
    by (simp add: getAvailableRow_def scanRows_None)
  have "0 < ROWS" by (simp add: ROWS_def)
  with full gravity_below [OF assms(2,3)]
  show "getAvailableRow board col = None \<longleftrightarrow> cellAt board 0 col \<noteq> Some Empty"
    by blast
next
  fix row assume "getAvailableRow board col = Some row"
  then show "row < ROWS" "cellAt board row col = Some Empty"
    using getAvailableRow_Some by blast+
next
  fix row r assume "getAvailableRow board col = Some row" "r < ROWS"
    "cellAt board r col = Some Empty"
  then show "r \<le> row"
    unfolding getAvailableRow_def by (rule scanRows_greatest)
qed

lemma wf_stacked: "wellFormed stacked"
  by (simp add: wellFormed_def stacked_def ROWS_def COLS_def)

lemma gravity_stacked: "gravity stacked"
  unfolding gravity_def atLeastLessThan_upt upt_COLS upt_ROWS
  by (simp add: stacked_def cellAt_def ROWS_def)

theorem getAvailableRow_correct_witness:
  "wellFormed stacked \<and> gravity stacked \<and> (3::nat) < COLS \<and> (2::nat) < COLS \<and>
   getAvailableRow stacked 3 = None \<and> cellAt stacked 0 3 \<noteq> Some Empty \<and>
   getAvailableRow stacked 2 = Some 4 \<and> cellAt stacked 4 2 = Some Empty \<and>
   cellAt stacked 5 2 \<noteq> Some Empty"
proof -
  have c3: "(3::nat) < COLS" and c2: "(2::nat) < COLS" by (simp_all add: COLS_def)
  have a: "getAvailableRow stacked 2 = Some 4"
    by (simp add: getAvailableRow_def ROWS_def eval_nat_numeral stacked_def cellAt_def)
  have b: "cellAt stacked 0 3 \<noteq> Some Empty"
    by (simp add: stacked_def cellAt_def)
  from getAvailableRow_correct [OF wf_stacked gravity_stacked c3]
    getAvailableRow_correct [OF wf_stacked gravity_stacked c2] a b wf_stacked gravity_stacked c3 c2
  show ?thesis by (simp add: stacked_def cellAt_def)
qed

lemma countRun_four:
  "countRun board p r c dr dc = 4 \<longleftrightarrow>
   (\<forall>i\<in>{0, 1, 2, 3}. holdsAt board p (int r + dr * i) (int c + dc * i))"
  by (simp add: countRun_def)

lemma holdsAt_wellFormed:
  assumes "wellFormed board"
  shows "holdsAt board p nr nc \<longleftrightarrow>
         0 \<le> nr \<and> nr < int ROWS \<and> 0 \<le> nc \<and> nc < int COLS \<and> board ! nat nr ! nat nc = Mark p"
proof -
  have "cellAt board (nat nr) (nat nc) = Some (board ! nat nr ! nat nc)"
    if "0 \<le> nr" "nr < int ROWS" "0 \<le> nc" "nc < int COLS"
  proof -
    from that assms have r: "nat nr < length board" by (simp add: wellFormed_def)
    with assms have "length (board ! nat nr) = COLS"
      by (simp add: wellFormed_def list_all_length)
    with that r show ?thesis by (simp add: cellAt_def)
  qed
  then show ?thesis by (auto simp: holdsAt_def)
qed

lemma isWinningMove_iff_holdsAt:
  "isWinningMove board p \<longleftrightarrow>
   (\<exists>r\<in>{0..<ROWS}. \<exists>c\<in>{0..<COLS}. cellAt board r c = Some (Mark p) \<and>
      (\<exists>(dr, dc)\<in>set directions. \<forall>i\<in>{0, 1, 2, 3}. holdsAt board p (int r + dr * i) (int c + dc * i)))"
  unfolding isWinningMove_def list_ex_iff countRun_four set_upt ..

lemma int_set4: "int ` {0..<4} = {0, 1, 2, 3}"
proof -
  have "{0..<4::nat} = {0, 1, 2, 3}" by auto
  then show ?thesis by simp
qed

text \<open>
  Claim C4. On a board of the fixed dimensions, \<open>isWinningMove board p\<close> holds iff
  there are a starting cell and one of the four directions such that the four cells
  reached from the start in that direction all lie inside the grid and all hold the mark
  of \<open>p\<close>.
\<close>

theorem isWinningMove_correct:
  assumes "wellFormed board"
  shows "isWinningMove board p \<longleftrightarrow>
         (\<exists>r c. \<exists>(dr, dc)\<in>set directions. \<forall>i\<in>{0..<4}.
            0 \<le> r + dr * int i \<and> r + dr * int i < int ROWS \<and>
            0 \<le> c + dc * int i \<and> c + dc * int i < int COLS \<and>
            board ! nat (r + dr * int i) ! nat (c + dc * int i) = Mark p)"
  (is "?L \<longleftrightarrow> ?R")
proof
  assume ?L
  then obtain r c dr dc where d: "(dr, dc) \<in> set directions"
    and run: "\<forall>i\<in>{0, 1, 2, 3}. holdsAt board p (int r + dr * i) (int c + dc * i)"
    unfolding isWinningMove_iff_holdsAt by blast
  have "\<forall>i\<in>{0..<4}. holdsAt board p (int r + dr * int i) (int c + dc * int i)"
    using run int_set4 by blast
  then have "\<forall>i\<in>{0..<4}.
            0 \<le> int r + dr * int i \<and> int r + dr * int i < int ROWS \<and>
            0 \<le> int c + dc * int i \<and> int c + dc * int i < int COLS \<and>
            board ! nat (int r + dr * int i) ! nat (int c + dc * int i) = Mark p"
    by (simp add: holdsAt_wellFormed [OF assms])
  with d show ?R by blast
next
  assume ?R
  then obtain r c dr dc where d: "(dr, dc) \<in> set directions"
    and run: "\<forall>i\<in>{0..<4}.
            0 \<le> r + dr * int i \<and> r + dr * int i < int ROWS \<and>
            0 \<le> c + dc * int i \<and> c + dc * int i < int COLS \<and>
            board ! nat (r + dr * int i) ! nat (c + dc * int i) = Mark p"
    by blast
  then have h: "\<forall>i\<in>{0..<4}. holdsAt board p (r + dr * int i) (c + dc * int i)"
    by (simp add: holdsAt_wellFormed [OF assms])
  then have h0: "holdsAt board p r c" by force
  then have r: "0 \<le> r" "nat r < ROWS" and c: "0 \<le> c" "nat c < COLS"
    and cell: "cellAt board (nat r) (nat c) = Some (Mark p)"
    by (auto simp: holdsAt_def)
  from h have "\<forall>j\<in>int ` {0..<4}. holdsAt board p (r + dr * j) (c + dc * j)" by blast
  then have "\<forall>i\<in>{0, 1, 2, 3}. holdsAt board p (int (nat r) + dr * i) (int (nat c) + dc * i)"
    using r c unfolding int_set4 by simp
  moreover from r c have "nat r \<in> {0..<ROWS}" "nat c \<in> {0..<COLS}" by simp_all
  ultimately show ?L
    unfolding isWinningMove_iff_holdsAt using cell d by blast
qed

lemma wf_fourInRow: "wellFormed fourInRow"
  by (simp add: wellFormed_def fourInRow_def ROWS_def COLS_def)

theorem isWinningMove_correct_witness:
  "wellFormed fourInRow \<and> isWinningMove fourInRow P1 \<and>
   (\<exists>r c. \<exists>(dr, dc)\<in>set directions. \<forall>i\<in>{0..<4}.
            0 \<le> r + dr * int i \<and> r + dr * int i < int ROWS \<and>
            0 \<le> c + dc * int i \<and> c + dc * int i < int COLS \<and>
            fourInRow ! nat (r + dr * int i) ! nat (c + dc * int i) = Mark P1) \<and>
   \<not> isWinningMove fourInRow P2"
proof -
  have a: "isWinningMove fourInRow P1" by code_simp
  have b: "\<not> isWinningMove fourInRow P2" by code_simp
  from isWinningMove_correct [OF wf_fourInRow, of P1] a b wf_fourInRow show ?thesis by blast
qed

text \<open>The walking loop of the Go program detects the same wins.\<close>

lemma runLoop_full:
  "runLoop board p dr dc nr nc k count = count + k \<longleftrightarrow>
   (\<forall>i<k. holdsAt board p (nr + dr * int i) (nc + dc * int i))"
proof (induction k arbitrary: nr nc count)
  case 0
  show ?case by simp
next
  case (Suc k)
  show ?case
  proof (cases "holdsAt board p nr nc")
    case True
    then have "runLoop board p dr dc nr nc (Suc k) count =
               runLoop board p dr dc (nr + dr) (nc + dc) k (count + 1)"
      by (auto simp: holdsAt_def)
    moreover have "(\<forall>i<Suc k. holdsAt board p (nr + dr * int i) (nc + dc * int i)) \<longleftrightarrow>
                   (\<forall>i<k. holdsAt board p (nr + dr + dr * int i) (nc + dc + dc * int i))"
      (is "?A \<longleftrightarrow> ?B")
    proof
      assume a: ?A
      show ?B
      proof (intro allI impI)
        fix i assume "i < k"
        with a have "holdsAt board p (nr + dr * int (Suc i)) (nc + dc * int (Suc i))" by auto
        then show "holdsAt board p (nr + dr + dr * int i) (nc + dc + dc * int i)"
          by (simp add: algebra_simps)
      qed
    next
      assume b: ?B
      show ?A
      proof (intro allI impI)
        fix i assume i: "i < Suc k"
        show "holdsAt board p (nr + dr * int i) (nc + dc * int i)"
        proof (cases i)
          case 0
          with True show ?thesis by simp
        next
          case (Suc j)
          with i b have "holdsAt board p (nr + dr + dr * int j) (nc + dc + dc * int j)" by auto
          with Suc show ?thesis by (simp add: algebra_simps)
        qed
      qed
    qed
    ultimately show ?thesis using Suc [of "nr + dr" "nc + dc" "count + 1"] by simp
  next
    case False
    then have "runLoop board p dr dc nr nc (Suc k) count = count"
      by (auto simp: holdsAt_def)
    moreover from False have "\<not> (\<forall>i<Suc k. holdsAt board p (nr + dr * int i) (nc + dc * int i))"
      by (auto intro: exI [of _ 0])
    ultimately show ?thesis by simp
  qed
qed

lemma runLoop_four:
  "runLoop board p dr dc (int r) (int c) 4 0 = 4 \<longleftrightarrow> countRun board p r c dr dc = 4"
proof -
  have "(\<forall>i<4::nat. holdsAt board p (int r + dr * int i) (int c + dc * int i)) \<longleftrightarrow>
        (\<forall>j\<in>int ` {0..<4}. holdsAt board p (int r + dr * j) (int c + dc * j))"
    by auto
  then show ?thesis
    using runLoop_full [of board p dr dc "int r" "int c" 4 0]
    unfolding countRun_four int_set4 by simp
qed

lemma isWinningMoveGo_eq: "isWinningMoveGo board p = isWinningMove board p"
  by (simp add: isWinningMoveGo_def isWinningMove_def runLoop_four)

section \<open>Properties of the tree explorers\<close>

declare exploreGameTree.simps [simp del]

declare exploreGameTreeSmart.simps [simp del]

lemma cloneBoard_id [simp]: "cloneBoard board = board"
  by (simp add: cloneBoard_def)

lemma centerFirst_Nil [simp]: "centerFirst cols = [] \<longleftrightarrow> cols = []"
  by (metis centerFirst_def length_sort length_0_conv)

lemma set_centerFirst [simp]: "set (centerFirst cols) = set cols"
  by (simp add: centerFirst_def)

lemma length_centerFirst [simp]: "length (centerFirst cols) = length cols"
  by (simp add: centerFirst_def)

lemma getValidColumns_iff:
  "col \<in> set (getValidColumns board) \<longleftrightarrow> col < COLS \<and> getAvailableRow board col \<noteq> None"
  by (auto simp: getValidColumns_def)

lemma exploreGameTree_base:
  "depth = 0 \<or> getValidColumns board = [] \<Longrightarrow> exploreGameTree board p depth = [sentinel]"
  by (subst exploreGameTree.simps) auto

lemma concat_map_single:
  "(\<And>x. x \<in> set xs \<Longrightarrow> f x = [g x]) \<Longrightarrow> concat (map f xs) = map g xs"
  by (induction xs) auto

lemma exploreGameTree_step:
  assumes "depth \<noteq> 0" "getValidColumns board \<noteq> []"
  shows "exploreGameTree board p depth =
         map (plainNode board p depth) (centerFirst (getValidColumns board))"
proof -
  have "exploreGameTree board p depth =
        concat (map (\<lambda>col.
                (case getAvailableRow board col of
                   None \<Rightarrow> []
                 | Some row \<Rightarrow>
                     (let newBoard = dropPiece (cloneBoard board) row col p in
                      if isWinningMove newBoard p
                      then [GameNode (int col) (winOf p) []]
                      else (let nextMoves = exploreGameTree newBoard (other p) (depth - 1)
                            in [GameNode (int col) (summarizeOutcomes nextMoves p)
                                  nextMoves]))))
              (centerFirst (getValidColumns board)))"
    using assms by (subst exploreGameTree.simps) (simp add: Let_def)
  also have "\<dots> = map (plainNode board p depth) (centerFirst (getValidColumns board))"
    by (rule concat_map_single)
       (auto simp: getValidColumns_iff plainNode_def Let_def)
  finally show ?thesis .
qed

lemma exploreGameTree_nonempty: "exploreGameTree board p depth \<noteq> []"
proof (cases "depth = 0 \<or> getValidColumns board = []")
  case True
  then show ?thesis by (simp add: exploreGameTree_base)
next
  case False
  then show ?thesis by (simp add: exploreGameTree_step)
qed

lemma treeInvariant_all:
  "treeInvariant mover nodes \<longleftrightarrow>
   (\<forall>n\<in>set nodes. (children n \<noteq> [] \<longrightarrow> outcome n = summarizeOutcomes (children n) mover) \<and>
                    treeInvariant (other mover) (children n))"
proof (induction nodes)
  case Nil
  show ?case by simp
next
  case (Cons n nodes)
  then show ?case by (cases n) auto
qed

lemma forestHeight_leI:
  "(\<And>n. n \<in> set nodes \<Longrightarrow> forestHeight (children n) \<le> k) \<Longrightarrow> forestHeight nodes \<le> Suc k"
proof (induction nodes)
  case Nil
  show ?case by simp
next
  case (Cons n nodes)
  from Cons.prems [of n] have "forestHeight (children n) \<le> k" by simp
  moreover from Cons have "forestHeight nodes \<le> Suc k" by simp
  ultimately show ?case by (cases n) simp
qed

lemma valid_col_decreases:
  assumes "col \<in> set (getValidColumns board)"
  shows "emptyCells (dropPiece board (the (getAvailableRow board col)) col p) < emptyCells board"
proof -
  from assms obtain row where r: "getAvailableRow board col = Some row"
    by (auto simp: getValidColumns_iff)
  then have "cellAt board row col = Some Empty" using getAvailableRow_Some by blast
  from emptyCells_dropPiece [OF this, of p] r show ?thesis by simp
qed

lemma treeInvariant_explore: "treeInvariant p (exploreGameTree board p depth)"
proof (induction "emptyCells board" arbitrary: board p depth rule: less_induct)
  case less
  show ?case
  proof (cases "depth = 0 \<or> getValidColumns board = []")
    case True
    then show ?thesis by (simp add: exploreGameTree_base sentinel_def)
  next
    case False
    have sub: "\<And>col. col \<in> set (getValidColumns board) \<Longrightarrow>
            treeInvariant (other p)
              (exploreGameTree (dropPiece board (the (getAvailableRow board col)) col p)
                 (other p) (depth - 1))"
      using less valid_col_decreases by blast
    show ?thesis
      unfolding treeInvariant_all [of p]
    proof
      fix n assume "n \<in> set (exploreGameTree board p depth)"
      with False obtain col where "col \<in> set (getValidColumns board)"
        and "n = plainNode board p depth col"
        by (auto simp: exploreGameTree_step)
      with sub [of col]
      show "(children n \<noteq> [] \<longrightarrow> outcome n = summarizeOutcomes (children n) p) \<and>
            treeInvariant (other p) (children n)"
        by (simp add: plainNode_def Let_def)
    qed
  qed
qed

lemma forestHeight_explore: "forestHeight (exploreGameTree board p depth) \<le> Suc (emptyCells board)"
proof (induction "emptyCells board" arbitrary: board p depth rule: less_induct)
  case less
  show ?case
  proof (cases "depth = 0 \<or> getValidColumns board = []")
    case True
    then show ?thesis by (simp add: exploreGameTree_base sentinel_def)
  next
    case False
    have sub: "\<And>col. col \<in> set (getValidColumns board) \<Longrightarrow>
            forestHeight
              (exploreGameTree (dropPiece board (the (getAvailableRow board col)) col p)
                 (other p) (depth - 1)) \<le> emptyCells board"
    proof -
      fix col assume c: "col \<in> set (getValidColumns board)"
      let ?nb = "dropPiece board (the (getAvailableRow board col)) col p"
      from valid_col_decreases [OF c] have d: "emptyCells ?nb < emptyCells board" .
      from less [OF d] have "forestHeight (exploreGameTree ?nb (other p) (depth - 1))
          \<le> Suc (emptyCells ?nb)" .
      with d show "forestHeight (exploreGameTree ?nb (other p) (depth - 1)) \<le> emptyCells board"
        by linarith
    qed
    show ?thesis
    proof (rule forestHeight_leI)
      fix n assume "n \<in> set (exploreGameTree board p depth)"
      with False obtain col where "col \<in> set (getValidColumns board)"
        and "n = plainNode board p depth col"
        by (auto simp: exploreGameTree_step)
      with sub [of col] show "forestHeight (children n) \<le> emptyCells board"
        by (simp add: plainNode_def Let_def)
    qed
  qed
qed


lemma exploreGameTreeSmart_base:
  "depth = 0 \<or> getValidColumns board = [] \<Longrightarrow> exploreGameTreeSmart board p depth = [sentinel]"
  by (subst exploreGameTreeSmart.simps) auto

lemma exploreGameTreeSmart_step:
  "depth \<noteq> 0 \<Longrightarrow> getValidColumns board \<noteq> [] \<Longrightarrow>
   exploreGameTreeSmart board p depth =
   smartLoop board p depth (centerFirst (getValidColumns board)) []"
  by (subst exploreGameTreeSmart.simps) (simp add: Let_def)

lemma smartLoop_None:
  "getAvailableRow board col = None \<Longrightarrow>
   smartLoop board p depth (col # cols) results = smartLoop board p depth cols results"
  by simp

lemma smartLoop_win:
  "getAvailableRow board col = Some row \<Longrightarrow> isWinningMove (dropPiece board row col p) p \<Longrightarrow>
   smartLoop board p depth (col # cols) results = [GameNode (int col) (winOf p) []]"
  by simp

lemma smartLoop_forced:
  "getAvailableRow board col = Some row \<Longrightarrow> \<not> isWinningMove (dropPiece board row col p) p \<Longrightarrow>
   summarizeOutcomes (smartReplies (dropPiece board row col p) (other p) depth) p = winOf p \<Longrightarrow>
   smartLoop board p depth (col # cols) results =
     [GameNode (int col) (winOf p) (smartReplies (dropPiece board row col p) (other p) depth)]"
  by (simp add: smartReplies_def Let_def)

lemma smartLoop_push:
  "getAvailableRow board col = Some row \<Longrightarrow> \<not> isWinningMove (dropPiece board row col p) p \<Longrightarrow>
   summarizeOutcomes (smartReplies (dropPiece board row col p) (other p) depth) p \<noteq> winOf p \<Longrightarrow>
   smartLoop board p depth (col # cols) results =
     smartLoop board p depth cols (results @
       [GameNode (int col)
          (summarizeOutcomes (smartReplies (dropPiece board row col p) (other p) depth) p)
          (smartReplies (dropPiece board row col p) (other p) depth)])"
  by (simp add: smartReplies_def Let_def)

declare smartLoop.simps(2) [simp del]

lemma treeInvariant_append:
  "treeInvariant p (xs @ ys) \<longleftrightarrow> treeInvariant p xs \<and> treeInvariant p ys"
  by (auto simp: treeInvariant_all [of p])

lemma treeInvariant_leaves:
  "(\<And>n. n \<in> set nodes \<Longrightarrow> children n = []) \<Longrightarrow> treeInvariant p nodes"
  by (subst treeInvariant_all) simp

lemma shallowReplies_leaves: "n \<in> set (shallowReplies board opp) \<Longrightarrow> children n = []"
  by (auto simp: shallowReplies_def Let_def split: option.splits if_splits)

lemma smartLoop_invariant:
  assumes sub: "\<And>col row. getAvailableRow board col = Some row \<Longrightarrow>
                  treeInvariant (other p) (smartReplies (dropPiece board row col p) (other p) depth)"
  shows "treeInvariant p results \<Longrightarrow> treeInvariant p (smartLoop board p depth cols results)"
proof (induction cols arbitrary: results)
  case Nil
  then show ?case by simp
next
  case (Cons col cols)
  show ?case
  proof (cases "getAvailableRow board col")
    case None
    with Cons show ?thesis by (simp add: smartLoop_None)
  next
    case (Some row)
    let ?nb = "dropPiece board row col p"
    let ?ch = "smartReplies ?nb (other p) depth"
    have node: "treeInvariant p [GameNode (int col) (summarizeOutcomes ?ch p) ?ch]"
      using sub [OF Some] by simp
    consider (win) "isWinningMove ?nb p"
      | (forced) "\<not> isWinningMove ?nb p" "summarizeOutcomes ?ch p = winOf p"
      | (push) "\<not> isWinningMove ?nb p" "summarizeOutcomes ?ch p \<noteq> winOf p"
      by blast
    then show ?thesis
    proof cases
      case win
      with Some show ?thesis by (simp add: smartLoop_win)
    next
      case forced
      with Some node show ?thesis by (simp add: smartLoop_forced)
    next
      case push
      from Cons.prems node have "treeInvariant p (results @
          [GameNode (int col) (summarizeOutcomes ?ch p) ?ch])"
        by (simp add: treeInvariant_append)
      from Cons.IH [OF this] Some push show ?thesis by (simp add: smartLoop_push)
    qed
  qed
qed

lemma treeInvariant_smart: "treeInvariant p (exploreGameTreeSmart board p depth)"
proof (induction "emptyCells board" arbitrary: board p depth rule: less_induct)
  case less
  show ?case
  proof (cases "depth = 0 \<or> getValidColumns board = []")
    case True
    then show ?thesis by (simp add: exploreGameTreeSmart_base sentinel_def)
  next
    case False
    have sub: "treeInvariant (other p) (smartReplies (dropPiece board row col p) (other p) depth)"
      if r: "getAvailableRow board col = Some row" for col row
    proof (cases "depth \<le> 3")
      case True
      then show ?thesis
        by (simp add: smartReplies_def treeInvariant_leaves shallowReplies_leaves)
    next
      case deep: False
      from r have "cellAt board row col = Some Empty" using getAvailableRow_Some by blast
      from emptyCells_dropPiece [OF this, of p]
      have "emptyCells (dropPiece board row col p) < emptyCells board" by simp
      from less [OF this] deep show ?thesis by (simp add: smartReplies_def)
    qed
    from False smartLoop_invariant [of board p depth "[]", OF sub] show ?thesis
      by (simp add: exploreGameTreeSmart_step)
  qed
qed

lemma smartLoop_reaches_win:
  assumes "getAvailableRow board col = Some row" "isWinningMove (dropPiece board row col p) p"
  shows "(\<forall>c\<in>set pre. \<forall>r. getAvailableRow board c = Some r \<longrightarrow>
            \<not> isWinningMove (dropPiece board r c p) p \<and>
            summarizeOutcomes (smartReplies (dropPiece board r c p) (other p) depth) p \<noteq> winOf p)
         \<Longrightarrow> smartLoop board p depth (pre @ col # post) results = [GameNode (int col) (winOf p) []]"
proof (induction pre arbitrary: results)
  case Nil
  from assms show ?case by (simp add: smartLoop_win)
next
  case (Cons c pre)
  show ?case
  proof (cases "getAvailableRow board c")
    case None
    with Cons show ?thesis by (simp add: smartLoop_None)
  next
    case (Some r)
    with Cons.prems have "\<not> isWinningMove (dropPiece board r c p) p"
      "summarizeOutcomes (smartReplies (dropPiece board r c p) (other p) depth) p \<noteq> winOf p"
      by simp_all
    with Some Cons show ?thesis by (simp add: smartLoop_push)
  qed
qed

text \<open>
  Claim C1. For every well-formed board, mover and depth budget, the forest returned by either
  explorer (\<open>exploreGameTree\<close> and \<open>exploreGameTreeSmart\<close>) satisfies the tree
  invariant: every node with a non-empty children list has as outcome the summary of its
  children for the mover of its ply, the movers alternating from the player passed at the
  root.
\<close>

theorem tree_invariant:
  assumes "wellFormed board"
  shows "treeInvariant p (exploreGameTree board p depth) \<and>
         treeInvariant p (exploreGameTreeSmart board p depth)"
  by (simp add: treeInvariant_explore treeInvariant_smart)

lemma wf_boards:
  "wellFormed createBoard" "wellFormed threeInRow" "wellFormed threeStack" "wellFormed fullBoard"
  by (simp_all add: wellFormed_def createBoard_def threeInRow_def threeStack_def fullBoard_def
      ROWS_def COLS_def list_all_iff)

theorem tree_invariant_witness:
  "wellFormed threeInRow \<and> wellFormed threeStack \<and>
   treeInvariant P1 (exploreGameTree threeInRow P1 2) \<and>
   treeInvariant P1 (exploreGameTreeSmart threeStack P1 2) \<and>
   children (hd (exploreGameTree threeInRow P1 2)) \<noteq> [] \<and>
   outcome (hd (exploreGameTree threeInRow P1 2)) =
     summarizeOutcomes (children (hd (exploreGameTree threeInRow P1 2))) P1"
proof -
  have "children (hd (exploreGameTree threeInRow P1 2)) \<noteq> []" by code_simp
  moreover have "outcome (hd (exploreGameTree threeInRow P1 2)) =
     summarizeOutcomes (children (hd (exploreGameTree threeInRow P1 2))) P1" by code_simp
  ultimately show ?thesis
    using tree_invariant [OF wf_boards(2), of P1 2] tree_invariant [OF wf_boards(3), of P1 2]
      wf_boards by simp
qed

text \<open>
  Claim C8. On a well-formed board, when the depth budget is 0 or the board has no valid
  column, both explorers return exactly one node: move \<open>-1\<close>, outcome \<open>DRAW\<close>, no children.
\<close>

theorem terminal_check:
  assumes "wellFormed board" and "depth = 0 \<or> getValidColumns board = []"
  shows "exploreGameTree board p depth = [GameNode (- 1) DRAW []] \<and>
         exploreGameTreeSmart board p depth = [GameNode (- 1) DRAW []]"
  using assms(2) exploreGameTree_base [of depth board p]
    exploreGameTreeSmart_base [of depth board p]
  by (simp add: sentinel_def)

theorem terminal_check_witness:
  "wellFormed fullBoard \<and> wellFormed createBoard \<and> getValidColumns fullBoard = [] \<and>
   exploreGameTree fullBoard P1 5 = [GameNode (- 1) DRAW []] \<and>
   exploreGameTreeSmart fullBoard P1 5 = [GameNode (- 1) DRAW []] \<and>
   exploreGameTree createBoard P2 0 = [GameNode (- 1) DRAW []] \<and>
   exploreGameTreeSmart createBoard P2 0 = [GameNode (- 1) DRAW []]"
proof -
  have full: "getValidColumns fullBoard = []" by code_simp
  from terminal_check [OF wf_boards(4), of 5 P1] terminal_check [OF wf_boards(1), of 0 P2]
    full wf_boards
  show ?thesis by simp
qed

text \<open>
  Claim C10. \<open>exploreGameTree\<close> is a total function of the board, the mover and any
  integer depth, negative ones included (its termination is proved on the number of empty
  cells, with no appeal to the depth). On every well-formed board it returns a non-empty forest whose height is at
  most one more than the number of empty cells of the board, and every placement it
  recurses on has strictly fewer empty cells than the board it was made on.
\<close>

theorem exploreGameTree_total:
  assumes "wellFormed board"
  shows "exploreGameTree board p depth \<noteq> [] \<and>
         forestHeight (exploreGameTree board p depth) \<le> Suc (emptyCells board) \<and>
         (\<forall>col row. getAvailableRow board col = Some row \<longrightarrow>
            emptyCells (dropPiece (cloneBoard board) row col p) < emptyCells board)"
proof (intro conjI allI impI)
  show "exploreGameTree board p depth \<noteq> []" by (rule exploreGameTree_nonempty)
  show "forestHeight (exploreGameTree board p depth) \<le> Suc (emptyCells board)"
    by (rule forestHeight_explore)
next
  fix col row assume "getAvailableRow board col = Some row"
  then have "cellAt board row col = Some Empty" using getAvailableRow_Some by blast
  from emptyCells_dropPiece [OF this, of p]
  show "emptyCells (dropPiece (cloneBoard board) row col p) < emptyCells board" by simp
qed

theorem exploreGameTree_total_witness:
  "wellFormed createBoard \<and> exploreGameTree createBoard P1 (- 1) \<noteq> [] \<and>
   forestHeight (exploreGameTree createBoard P1 (- 1)) \<le> 43 \<and>
   getAvailableRow createBoard 3 = Some 5 \<and>
   emptyCells (dropPiece (cloneBoard createBoard) 5 3 P1) < emptyCells createBoard"
proof -
  have a: "getAvailableRow createBoard 3 = Some 5" by code_simp
  have b: "emptyCells createBoard = 42" by code_simp
  from exploreGameTree_total [OF wf_boards(1), of P1 "- 1"] a b wf_boards(1)
  show ?thesis by simp
qed

text \<open>
  Claim C2, as amended. On a well-formed board, let the depth budget be non-zero and let the loop of
  \<open>exploreGameTreeSmart\<close> reach a candidate column whose placement is an immediate win
  for the mover, that is, no candidate before it in centre-first order is an immediate
  win or gets the mover's win as summary. Then \<open>exploreGameTreeSmart\<close> returns exactly
  that winning node. \<open>exploreGameTree\<close> has no early exit: on the same input it returns
  one node per valid column, the winning node among them.
\<close>

theorem early_exit:
  assumes "wellFormed board"
    and "depth \<noteq> 0"
    and "centerFirst (getValidColumns board) = pre @ col # post"
    and "getAvailableRow board col = Some row"
    and "isWinningMove (dropPiece (cloneBoard board) row col p) p"
    and "\<forall>c\<in>set pre. \<forall>r. getAvailableRow board c = Some r \<longrightarrow>
           \<not> isWinningMove (dropPiece (cloneBoard board) r c p) p \<and>
           summarizeOutcomes (smartReplies (dropPiece (cloneBoard board) r c p) (other p) depth) p
             \<noteq> winOf p"
  shows "exploreGameTreeSmart board p depth = [GameNode (int col) (winOf p) []] \<and>
         length (exploreGameTree board p depth) = length (getValidColumns board) \<and>
         GameNode (int col) (winOf p) [] \<in> set (exploreGameTree board p depth)"
proof -
  from assms(3) have ne: "getValidColumns board \<noteq> []"
    by (metis centerFirst_Nil snoc_eq_iff_butlast append_is_Nil_conv list.distinct(1))
  from assms(3) have "col \<in> set (centerFirst (getValidColumns board))" by simp
  then have mem: "col \<in> set (getValidColumns board)" by simp
  have smart: "exploreGameTreeSmart board p depth = [GameNode (int col) (winOf p) []]"
    using assms(2-) smartLoop_reaches_win [of board col row p pre depth post "[]"] ne
    by (simp add: exploreGameTreeSmart_step)
  have plain: "exploreGameTree board p depth =
               map (plainNode board p depth) (centerFirst (getValidColumns board))"
    using assms(2) ne by (rule exploreGameTree_step)
  have "plainNode board p depth col = GameNode (int col) (winOf p) []"
    using assms(4,5) by (simp add: plainNode_def)
  with mem have "GameNode (int col) (winOf p) [] \<in> set (exploreGameTree board p depth)"
    unfolding plain by (metis imageI set_centerFirst set_map)
  with smart plain show ?thesis by simp
qed

theorem early_exit_witness:
  "wellFormed threeStack \<and> (2::int) \<noteq> 0 \<and> centerFirst (getValidColumns threeStack) = [3] @ 2 # [4, 1, 5, 0, 6] \<and>
   getAvailableRow threeStack 2 = Some 2 \<and>
   isWinningMove (dropPiece (cloneBoard threeStack) 2 2 P1) P1 \<and>
   getAvailableRow threeStack 3 = Some 5 \<and>
   \<not> isWinningMove (dropPiece (cloneBoard threeStack) 5 3 P1) P1 \<and>
   summarizeOutcomes (smartReplies (dropPiece (cloneBoard threeStack) 5 3 P1) (other P1) 2) P1
     \<noteq> winOf P1 \<and>
   exploreGameTreeSmart threeStack P1 2 = [GameNode 2 (winOf P1) []] \<and>
   length (exploreGameTree threeStack P1 2) = length (getValidColumns threeStack) \<and>
   GameNode 2 (winOf P1) [] \<in> set (exploreGameTree threeStack P1 2)"
proof -
  have a: "centerFirst (getValidColumns threeStack) = [3] @ 2 # [4, 1, 5, 0, 6]" by code_simp
  have b: "getAvailableRow threeStack 2 = Some 2" by code_simp
  have c: "isWinningMove (dropPiece (cloneBoard threeStack) 2 2 P1) P1" by code_simp
  have d: "getAvailableRow threeStack 3 = Some 5" by code_simp
  have e: "\<not> isWinningMove (dropPiece (cloneBoard threeStack) 5 3 P1) P1" by code_simp
  have f: "summarizeOutcomes (smartReplies (dropPiece (cloneBoard threeStack) 5 3 P1) (other P1) 2) P1
     \<noteq> winOf P1" by code_simp
  have g: "\<forall>c\<in>set [3]. \<forall>r. getAvailableRow threeStack c = Some r \<longrightarrow>
           \<not> isWinningMove (dropPiece (cloneBoard threeStack) r c P1) P1 \<and>
           summarizeOutcomes (smartReplies (dropPiece (cloneBoard threeStack) r c P1) (other P1) 2) P1
             \<noteq> winOf P1"
    using d e f by simp
  have h: "(2::int) \<noteq> 0" by simp
  from early_exit [OF wf_boards(3) h a b c g] a b c d e f wf_boards(3) show ?thesis by simp
qed

text \<open>
  The claim C2 as stated fails for \<open>exploreGameTree\<close>: with three marks of player 1 in
  the bottom row and column 0 free, at depth 1, column 0 is an immediate win and the
  forest still has the seven nodes of the seven valid columns.
\<close>

theorem plain_explorer_keeps_siblings:
  "wellFormed threeInRow \<and> getValidColumns threeInRow = [0, 1, 2, 3, 4, 5, 6] \<and>
   getAvailableRow threeInRow 0 = Some 5 \<and>
   isWinningMove (dropPiece (cloneBoard threeInRow) 5 0 P1) P1 \<and>
   exploreGameTree threeInRow P1 1 =
    [GameNode 3 DRAW [GameNode (- 1) DRAW []],
     GameNode 2 DRAW [GameNode (- 1) DRAW []],
     GameNode 4 DRAW [GameNode (- 1) DRAW []],
     GameNode 1 DRAW [GameNode (- 1) DRAW []],
     GameNode 5 DRAW [GameNode (- 1) DRAW []],
     GameNode 0 WIN_P1 [],
     GameNode 6 DRAW [GameNode (- 1) DRAW []]] \<and>
   length (exploreGameTree threeInRow P1 1) = 7"
  by code_simp

section \<open>Properties of the path extractor\<close>

lemma hitAt_Nil [simp]: "\<not> hitAt target [] path"
  by (auto elim: hitAt.cases)

lemma hitAt_Cons:
  "hitAt target (node # rest) path \<longleftrightarrow>
     (outcome node = target \<and> children node = [] \<and> path = [move node]) \<or>
     (\<exists>q. path = move node # q \<and> hitAt target (children node) q) \<or>
     hitAt target rest path"
  (is "?L \<longleftrightarrow> ?R")
proof
  assume ?L
  then show ?R
  proof (cases rule: hitAt.cases)
    case (hit_here n)
    show ?thesis
    proof (cases "n = node")
      case True
      with hit_here show ?thesis by simp
    next
      case False
      with hit_here have "n \<in> set rest" by simp
      from hitAt.hit_here [OF this hit_here(3,4)] hit_here(1) show ?thesis by simp
    qed
  next
    case (hit_below n q)
    show ?thesis
    proof (cases "n = node")
      case True
      with hit_below show ?thesis by simp
    next
      case False
      with hit_below have "n \<in> set rest" by simp
      from hitAt.hit_below [OF this hit_below(3)] hit_below(1) show ?thesis by simp
    qed
  qed
next
  assume r: ?R
  have here: "node \<in> set (node # rest)" by simp
  from r consider (a) "outcome node = target" "children node = []" "path = [move node]"
    | (b) q where "path = move node # q" "hitAt target (children node) q"
    | (c) "hitAt target rest path" by blast
  then show ?L
  proof cases
    case a
    from hitAt.hit_here [OF here a(1,2)] a(3) show ?thesis by simp
  next
    case b
    from hitAt.hit_below [OF here b(2)] b(1) show ?thesis by simp
  next
    case c
    then show ?thesis
    proof (cases rule: hitAt.cases)
      case (hit_here n)
      then have "n \<in> set (node # rest)" by simp
      from hitAt.hit_here [OF this hit_here(3,4)] hit_here(1) show ?thesis by simp
    next
      case (hit_below n q)
      then have "n \<in> set (node # rest)" by simp
      from hitAt.hit_below [OF this hit_below(3)] hit_below(1) show ?thesis by simp
    qed
  qed
qed

lemma set_hitPaths:
  "set (hitPaths target pre nodes) = {pre @ q | q. hitAt target nodes q}"
proof (induction target pre nodes rule: hitPaths.induct)
  case (1 target path)
  show ?case by simp
next
  case (2 target path mv oc cs rest)
  show ?case
    unfolding hitPaths.simps set_append 2 hitAt_Cons [of target "GameNode mv oc cs"]
    by auto
qed

lemma hitPaths_Cons:
  "hitPaths target path (node # rest) =
     (if outcome node = target \<and> children node = [] then [path @ [move node]] else []) @
     hitPaths target (path @ [move node]) (children node) @ hitPaths target path rest"
  by (cases node) simp

lemma dfs_Cons:
  "dfs target path (node # rest) depth p shortest =
     dfs target path rest depth p
       (if outcome node = target \<and> children node = [] then better shortest (path @ [move node])
        else if children node \<noteq> []
        then dfs target (path @ [move node]) (children node) (depth + 1) (other p) shortest
        else shortest)"
  by (simp add: better_def Let_def)

lemma dfs_fold:
  "dfs target path nodes depth p shortest = foldl better shortest (hitPaths target path nodes)"
proof (induction target path nodes depth p shortest rule: dfs.induct)
  case (1 target path depth currentPlayer shortest)
  show ?case by simp
next
  case (2 target path node rest depth currentPlayer shortest)
  note rest = 2(2) [OF refl]
  show ?case
  proof (cases "outcome node = target \<and> children node = []")
    case True
    with rest show ?thesis
      unfolding dfs_Cons hitPaths_Cons by (simp add: better_def)
  next
    case False
    show ?thesis
    proof (cases "children node = []")
      case True
      with False rest show ?thesis
        unfolding dfs_Cons hitPaths_Cons by simp
    next
      case ne: False
      with False have "\<not> (outcome node = target \<and> length (children node) = 0)"
        "0 < length (children node)" by simp_all
      from 2(1) [OF refl this] False ne rest show ?thesis
        unfolding dfs_Cons hitPaths_Cons by simp
    qed
  qed
qed

lemma foldl_better_None: "foldl better shortest cands = None \<longleftrightarrow> shortest = None \<and> cands = []"
  by (induction cands arbitrary: shortest) (auto simp: better_def split: option.splits)

lemma foldl_better_Some:
  "foldl better shortest cands = Some r \<Longrightarrow>
   (shortest = Some r \<or> r \<in> set cands) \<and> (\<forall>x\<in>set cands. length r \<le> length x) \<and>
   (\<forall>y. shortest = Some y \<longrightarrow> length r \<le> length y)"
proof (induction cands arbitrary: shortest)
  case Nil
  then show ?case by simp
next
  case (Cons c cands)
  from Cons.prems have "foldl better (better shortest c) cands = Some r" by simp
  from Cons.IH [OF this] show ?case
    by (auto simp: better_def split: option.splits if_splits)
qed

lemma hit_iff_node:
  "(\<exists>path. hitAt target nodes path) \<longleftrightarrow>
   (\<exists>n\<in>set (allNodes nodes). outcome n = target \<and> children n = [])"
proof (induction nodes rule: allNodes.induct)
  case 1
  show ?case by simp
next
  case (2 mv oc cs rest)
  have "(\<exists>path. hitAt target (GameNode mv oc cs # rest) path) \<longleftrightarrow>
        (oc = target \<and> cs = []) \<or> (\<exists>q. hitAt target cs q) \<or> (\<exists>path. hitAt target rest path)"
    unfolding hitAt_Cons [of target "GameNode mv oc cs"] by auto
  with 2 show ?case by auto
qed

lemma shortest_is_minimal_hit:
  assumes "findShortestWinningPath nodes target = Some path"
  shows "hitAt target nodes path \<and> (\<forall>q. hitAt target nodes q \<longrightarrow> length path \<le> length q)"
proof -
  from assms have "foldl better None (hitPaths target [] nodes) = Some path"
    by (simp add: findShortestWinningPath_def dfs_fold)
  from foldl_better_Some [OF this]
  have "path \<in> set (hitPaths target [] nodes)"
    and "\<forall>x\<in>set (hitPaths target [] nodes). length path \<le> length x" by simp_all
  then show ?thesis by (simp add: set_hitPaths)
qed

lemma shortest_None_iff:
  "findShortestWinningPath nodes target = None \<longleftrightarrow> \<not> (\<exists>path. hitAt target nodes path)"
proof -
  have "findShortestWinningPath nodes target = None \<longleftrightarrow> hitPaths target [] nodes = []"
    by (simp add: findShortestWinningPath_def dfs_fold foldl_better_None)
  also have "\<dots> \<longleftrightarrow> \<not> (\<exists>path. hitAt target nodes path)"
    using set_hitPaths [of target "[]" nodes] by (auto simp: set_empty [symmetric] simp del: set_empty)
  finally show ?thesis .
qed

lemma hit_twoHits: "hitAt WIN_P1 twoHits [3, 2]"
proof -
  have "[3, 2] \<in> set (hitPaths WIN_P1 [] twoHits)" by (simp add: twoHits_def)
  then show ?thesis by (simp add: set_hitPaths)
qed

lemma shortest_twoHits:
  "findShortestWinningPath twoHits WIN_P1 = Some [4] \<and> hitAt WIN_P1 twoHits [4] \<and>
   hitAt WIN_P1 twoHits [3, 2] \<and> length [4 :: int] \<le> length [3, 2 :: int]"
proof -
  have a: "findShortestWinningPath twoHits WIN_P1 = Some [4]" by code_simp
  from shortest_is_minimal_hit [OF a] a hit_twoHits show ?thesis by simp
qed

text \<open>
  Claim C5. If the path extractor returns a move sequence, the sequence is the root path
  of a hit and no hit has a strictly shorter root path. The recursive extractor
  \<open>findShortestWinningPath\<close> meets this (\<open>shortest_is_minimal_hit\<close> above). The
  stack-based extractor of the second Go program does not: on \<open>chain\<close> the path pushed
  for the node of move 3 shares its backing array with the path built next for its
  sibling of move 4, which overwrites the last cell; the sequence returned for the hit
  below move 3 is \<open>[0, 1, 2, 4, 5]\<close>, the root path of no node, where the only hit has
  the root path \<open>[0, 1, 2, 3, 5]\<close>.
\<close>

theorem stack_extractor_aliasing:
  "findShortestWinningPathGo chain WIN_P1 = Some [0, 1, 2, 4, 5] \<and>
   hitPaths WIN_P1 [] chain = [[0, 1, 2, 3, 5]] \<and>
   \<not> hitAt WIN_P1 chain [0, 1, 2, 4, 5] \<and>
   findShortestWinningPath chain WIN_P1 = Some [0, 1, 2, 3, 5]"
proof -
  have go: "findShortestWinningPathGo chain WIN_P1 = Some [0, 1, 2, 4, 5]" by code_simp
  have hits: "hitPaths WIN_P1 [] chain = [[0, 1, 2, 3, 5]]" by code_simp
  have ts: "findShortestWinningPath chain WIN_P1 = Some [0, 1, 2, 3, 5]" by code_simp
  have "[0, 1, 2, 4, 5] \<notin> set (hitPaths WIN_P1 [] chain)" unfolding hits by simp
  then have "\<not> hitAt WIN_P1 chain [0, 1, 2, 4, 5]" by (simp add: set_hitPaths)
  with go hits ts show ?thesis by simp
qed

text \<open>
  Claim C6. \<open>findShortestWinningPath\<close> returns \<open>None\<close> (the \<^verbatim>\<open>null\<close> of the source, an
  ordinary value of its result type) iff no node anywhere in the forest has the target
  outcome and an empty children list.
\<close>

theorem no_hit_none:
  "findShortestWinningPath nodes target = None \<longleftrightarrow>
   \<not> (\<exists>n\<in>set (allNodes nodes). outcome n = target \<and> children n = [])"
  by (simp add: shortest_None_iff hit_iff_node)

theorem no_hit_none_witness:
  "findShortestWinningPath twoHits WIN_P2 = None \<and>
   \<not> (\<exists>n\<in>set (allNodes twoHits). outcome n = WIN_P2 \<and> children n = []) \<and>
   findShortestWinningPath twoHits WIN_P1 \<noteq> None \<and>
   (\<exists>n\<in>set (allNodes twoHits). outcome n = WIN_P1 \<and> children n = [])"
proof -
  have a: "findShortestWinningPath twoHits WIN_P2 = None" by code_simp
  have b: "findShortestWinningPath twoHits WIN_P1 \<noteq> None" by code_simp
  from no_hit_none [of twoHits WIN_P2] no_hit_none [of twoHits WIN_P1] a b show ?thesis by simp
qed

section \<open>The empty board at depth 8\<close>

lemma hitAt_not_Nil [simp]: "\<not> hitAt target forest []"
  by (auto elim: hitAt.cases)

lemma plainNode_win:
  "getAvailableRow board c = Some row \<Longrightarrow> isWinningMove (dropPiece board row c p) p \<Longrightarrow>
   plainNode board p depth c = GameNode (int c) (winOf p) []"
  by (simp add: plainNode_def Let_def)

lemma plainNode_deep:
  "getAvailableRow board c = Some row \<Longrightarrow> \<not> isWinningMove (dropPiece board row c p) p \<Longrightarrow>
   plainNode board p depth c =
     GameNode (int c)
       (summarizeOutcomes (exploreGameTree (dropPiece board row c p) (other p) (depth - 1)) p)
       (exploreGameTree (dropPiece board row c p) (other p) (depth - 1))"
  by (simp add: plainNode_def Let_def)

lemma explore_node_cases:
  assumes "node \<in> set (exploreGameTree board p depth)"
  obtains (sentinel) "node = sentinel"
  | (col) col where "col \<in> set (getValidColumns board)" "node = plainNode board p depth col"
proof (cases "depth = 0 \<or> getValidColumns board = []")
  case True
  with assms have "node = sentinel" by (simp add: exploreGameTree_base)
  then show ?thesis by (rule sentinel)
next
  case False
  with assms obtain c where "c \<in> set (getValidColumns board)" "node = plainNode board p depth c"
    by (auto simp: exploreGameTree_step)
  then show ?thesis by (rule col)
qed

lemma hit_is_winningLine:
  "hitAt target (exploreGameTree board p depth) path \<Longrightarrow> target \<noteq> DRAW \<Longrightarrow>
   winningLine board p path target"
proof (induction path arbitrary: board p depth)
  case Nil
  then show ?case by simp
next
  case (Cons m ms)
  from Cons.prems(1) show ?case
  proof (cases rule: hitAt.cases)
    case (hit_here node)
    then have "node \<in> set (exploreGameTree board p depth)" by simp
    then show ?thesis
    proof (cases rule: explore_node_cases)
      case sentinel
      with hit_here Cons.prems(2) show ?thesis by (simp add: sentinel_def)
    next
      case (col c)
      then obtain row where row: "getAvailableRow board c = Some row" and c: "c < COLS"
        by (auto simp: getValidColumns_iff)
      show ?thesis
      proof (cases "isWinningMove (dropPiece board row c p) p")
        case True
        with col row hit_here c show ?thesis by (simp add: plainNode_win)
      next
        case False
        with col row hit_here exploreGameTree_nonempty show ?thesis
          by (simp add: plainNode_deep)
      qed
    qed
  next
    case (hit_below node)
    then have "node \<in> set (exploreGameTree board p depth)" by simp
    then show ?thesis
    proof (cases rule: explore_node_cases)
      case sentinel
      with hit_below show ?thesis by (simp add: sentinel_def)
    next
      case (col c)
      then obtain row where row: "getAvailableRow board c = Some row" and c: "c < COLS"
        by (auto simp: getValidColumns_iff)
      show ?thesis
      proof (cases "isWinningMove (dropPiece board row c p) p")
        case True
        with col row hit_below show ?thesis by (simp add: plainNode_win)
      next
        case False
        with col row hit_below
        have "hitAt target (exploreGameTree (dropPiece board row c p) (other p) (depth - 1)) ms"
          and m: "m = int c"
          by (simp_all add: plainNode_deep)
        from Cons.IH [OF this(1) Cons.prems(2)] m row c False show ?thesis by simp
      qed
    qed
  qed
qed

lemma winningLine_is_hit:
  "winningLine board p path target \<Longrightarrow> depth < 0 \<or> int (length path) \<le> depth \<Longrightarrow>
   hitAt target (exploreGameTree board p depth) path"
proof (induction path arbitrary: board p depth)
  case Nil
  then show ?case by simp
next
  case (Cons m ms)
  from Cons.prems(1) obtain row where m: "0 \<le> m" "nat m < COLS"
    and row: "getAvailableRow board (nat m) = Some row"
    by (auto split: option.splits)
  let ?nb = "dropPiece board row (nat m) p"
  from m row have valid: "nat m \<in> set (getValidColumns board)"
    by (simp add: getValidColumns_iff)
  then have ne: "getValidColumns board \<noteq> []" by auto
  from Cons.prems(2) have d: "depth \<noteq> 0" by auto
  from valid have node: "plainNode board p depth (nat m) \<in> set (exploreGameTree board p depth)"
    by (simp add: exploreGameTree_step [OF d ne])
  show ?case
  proof (cases "isWinningMove ?nb p")
    case True
    with Cons.prems(1) row have ms: "ms = []" and t: "target = winOf p" by simp_all
    from True row have pn: "plainNode board p depth (nat m) = GameNode m (winOf p) []"
      using m by (simp add: plainNode_win)
    from hitAt.hit_here [OF node, of target] pn t ms show ?thesis by simp
  next
    case False
    with Cons.prems(1) row have line: "winningLine ?nb (other p) ms target" by simp
    from Cons.prems(2) have "depth - 1 < 0 \<or> int (length ms) \<le> depth - 1" by auto
    from Cons.IH [OF line this]
    have sub: "hitAt target (exploreGameTree ?nb (other p) (depth - 1)) ms" .
    from False row have pn: "children (plainNode board p depth (nat m)) =
        exploreGameTree ?nb (other p) (depth - 1)"
      and mv: "move (plainNode board p depth (nat m)) = m"
      using m by (simp_all add: plainNode_deep)
    from hitAt.hit_below [OF node, of target ms] sub pn mv show ?thesis by simp
  qed
qed

lemma winOf_other: "winOf (other p) \<noteq> winOf p" "other (other p) = p"
  by (cases p; simp add: winOf_def other_def)+

lemma winningLine_parity:
  "winningLine board p path target \<Longrightarrow>
   (target = winOf p \<longrightarrow> odd (length path)) \<and> (target = winOf (other p) \<longrightarrow> even (length path))"
proof (induction path arbitrary: board p)
  case Nil
  then show ?case by simp
next
  case (Cons m ms)
  from Cons.prems obtain row where row: "getAvailableRow board (nat m) = Some row"
    by (auto split: option.splits)
  show ?case
  proof (cases "isWinningMove (dropPiece board row (nat m) p) p")
    case True
    with Cons.prems row have "ms = []" "target = winOf p" by simp_all
    with winOf_other(1) [of p] show ?thesis by auto
  next
    case False
    with Cons.prems row have "winningLine (dropPiece board row (nat m) p) (other p) ms target"
      by simp
    from Cons.IH [OF this] show ?thesis by (simp add: winOf_other)
  qed
qed

text \<open>
  No summarized win within the budget. A placement can only complete four in a line when
  the player already has three marks, and then the three marks fix the winning column up
  to a shift of four; so a player with at most three marks, on a board with at most seven
  pieces, has a valid column that does not win at once (\<open>some_move_not_winning\<close>).
  By induction on the depth budget no node with children is classified as a win of a
  player who has at most four marks in all by the end of the budget (\<open>no_forced\<close>).
\<close>

lemma holdsAt_markAt:
  "holdsAt board q (int r) (int c) \<longleftrightarrow> markAt board q (r, c)"
  by (auto simp: holdsAt_def markAt_def)

lemma winning_line:
  assumes "isWinningMove board q"
  obtains r c where
    "(markAt board q (r, c) \<and> markAt board q (r, c + 1) \<and>
      markAt board q (r, c + 2) \<and> markAt board q (r, c + 3)) \<or>
     (markAt board q (r, c) \<and> markAt board q (r + 1, c) \<and>
      markAt board q (r + 2, c) \<and> markAt board q (r + 3, c)) \<or>
     (markAt board q (r, c) \<and> markAt board q (r + 1, c + 1) \<and>
      markAt board q (r + 2, c + 2) \<and> markAt board q (r + 3, c + 3)) \<or>
     (markAt board q (r, c + 3) \<and> markAt board q (r + 1, c + 2) \<and>
      markAt board q (r + 2, c + 1) \<and> markAt board q (r + 3, c))"
proof -
  from assms obtain r c dr dc where d: "(dr, dc) \<in> set directions"
    and run: "\<forall>i\<in>{0, 1, 2, 3}. holdsAt board q (int r + dr * i) (int c + dc * i)"
    unfolding isWinningMove_iff_holdsAt by blast
  from d consider (h) "dr = 0" "dc = 1" | (v) "dr = 1" "dc = 0"
    | (d1) "dr = 1" "dc = 1" | (d2) "dr = 1" "dc = - 1"
    by (auto simp: directions_def)
  then show thesis
  proof cases
    case h
    with run have "holdsAt board q (int r) (int c)" "holdsAt board q (int r) (int (c + 1))"
      "holdsAt board q (int r) (int (c + 2))" "holdsAt board q (int r) (int (c + 3))"
      by (simp_all add: add.commute)
    then show thesis using that [of r c] unfolding holdsAt_markAt by blast
  next
    case v
    with run have "holdsAt board q (int r) (int c)" "holdsAt board q (int (r + 1)) (int c)"
      "holdsAt board q (int (r + 2)) (int c)" "holdsAt board q (int (r + 3)) (int c)"
      by (simp_all add: add.commute)
    then show thesis using that [of r c] unfolding holdsAt_markAt by blast
  next
    case d1
    with run have "holdsAt board q (int r) (int c)" "holdsAt board q (int (r + 1)) (int (c + 1))"
      "holdsAt board q (int (r + 2)) (int (c + 2))" "holdsAt board q (int (r + 3)) (int (c + 3))"
      by (simp_all add: add.commute)
    then show thesis using that [of r c] unfolding holdsAt_markAt by blast
  next
    case d2
    with run have a: "holdsAt board q (int r) (int c)" "holdsAt board q (int r + 1) (int c - 1)"
      "holdsAt board q (int r + 2) (int c - 2)" "holdsAt board q (int r + 3) (int c - 3)"
      by simp_all
    from a(4) have c3: "3 \<le> c" by (simp add: holdsAt_def)
    define c' where "c' = c - 3"
    with c3 have c: "c = c' + 3" by simp
    from a have "holdsAt board q (int r) (int (c' + 3))"
      "holdsAt board q (int (r + 1)) (int (c' + 2))"
      "holdsAt board q (int (r + 2)) (int (c' + 1))" "holdsAt board q (int (r + 3)) (int c')"
      unfolding c by (simp_all add: algebra_simps)
    then show thesis using that [of r c'] unfolding holdsAt_markAt by blast
  qed
qed

lemma cellAt_dropPiece:
  assumes "cellAt board r0 c0 = Some Empty"
  shows "cellAt (dropPiece board r0 c0 q) r c =
         (if r = r0 \<and> c = c0 then Some (Mark q) else cellAt board r c)"
  using assms by (auto simp: cellAt_def dropPiece_def nth_list_update split: if_splits)

lemma wellFormed_dropPiece:
  assumes "wellFormed board"
  shows "wellFormed (dropPiece board r c q)"
proof -
  have "length (board[r := (board ! r)[c := Mark q]] ! n) = COLS" if "n < ROWS" for n
  proof (cases "n = r")
    case True
    with that assms show ?thesis by (simp add: wellFormed_def list_all_length)
  next
    case False
    with that assms show ?thesis by (simp add: wellFormed_def list_all_length)
  qed
  with assms show ?thesis by (simp add: wellFormed_def dropPiece_def list_all_length)
qed

lemma markAt_dropPiece:
  assumes "cellAt board r0 c0 = Some Empty"
  shows "markAt (dropPiece board r0 c0 p) q pos \<longleftrightarrow>
         (if pos = (r0, c0) then p = q \<and> r0 < ROWS \<and> c0 < COLS else markAt board q pos)"
  by (cases pos) (auto simp: markAt_def cellAt_dropPiece [OF assms])

lemma marksIn_drop_same:
  "cellAt board r0 c0 = Some Empty \<Longrightarrow> marksIn board q ms \<Longrightarrow>
   marksIn (dropPiece board r0 c0 q) q ((r0, c0) # ms)"
  by (auto simp: marksIn_def markAt_dropPiece split: if_splits)

lemma marksIn_drop_other:
  "cellAt board r0 c0 = Some Empty \<Longrightarrow> p \<noteq> q \<Longrightarrow> marksIn board q ms \<Longrightarrow>
   marksIn (dropPiece board r0 c0 p) q ms"
  by (auto simp: marksIn_def markAt_dropPiece split: if_splits)

lemma piecesIn_drop:
  "cellAt board r0 c0 = Some Empty \<Longrightarrow> piecesIn board ps \<Longrightarrow>
   piecesIn (dropPiece board r0 c0 p) ((r0, c0) # ps)"
  by (auto simp: piecesIn_def markAt_dropPiece split: if_splits)

lemma line_mostly_old:
  assumes "L \<subseteq> insert x S" "card L = 4" "finite S" "card S \<le> 3"
  shows "x \<in> L \<and> S = L - {x}"
proof -
  have fin: "finite L" using assms(2) card.infinite by fastforce
  have x: "x \<in> L"
  proof (rule ccontr)
    assume "x \<notin> L"
    with assms(1) have "L \<subseteq> S" by auto
    with assms(3) have "card L \<le> card S" by (simp add: card_mono)
    with assms(2,4) show False by simp
  qed
  from assms(1) have sub: "L - {x} \<subseteq> S" by auto
  from x fin assms(2) have "card (L - {x}) = 3" by simp
  with assms(4) have "card S \<le> card (L - {x})" by simp
  from card_seteq [OF assms(3) sub this] x show ?thesis by simp
qed

lemma win_shape:
  assumes empty: "cellAt board r0 c0 = Some Empty"
    and mi: "marksIn board q ms"
    and len: "length ms \<le> 3"
    and win: "isWinningMove (dropPiece board r0 c0 q) q"
  shows "card (set ms) = 3 \<and> (\<forall>pos\<in>set ms. markAt board q pos) \<and>
         (\<forall>pos\<in>set ms. snd pos \<le> c0 + 3 \<and> c0 \<le> snd pos + 3) \<and>
         ((\<forall>pos\<in>set ms. snd pos = c0) \<or> inj_on snd (set ms))"
proof -
  let ?b = "dropPiece board r0 c0 q"
  from marksIn_drop_same [OF empty mi] have in': "\<And>pos. markAt ?b q pos \<Longrightarrow> pos \<in> insert (r0, c0) (set ms)"
    unfolding marksIn_def by (metis list.simps(15))
  have small: "card (set ms) \<le> 3" using len card_length [of ms] by linarith
  have key: "card (set ms) = 3 \<and> (\<forall>pos\<in>set ms. markAt board q pos) \<and>
         (\<forall>pos\<in>set ms. snd pos \<le> c0 + 3 \<and> c0 \<le> snd pos + 3) \<and>
         ((\<forall>pos\<in>set ms. snd pos = c0) \<or> inj_on snd (set ms))"
    if marks: "\<forall>a\<in>L. markAt ?b q a"
      and sub: "L \<subseteq> insert (r0, c0) (set ms)" and four: "card L = 4"
      and near: "\<forall>a\<in>L. \<forall>b\<in>L. snd a \<le> snd b + 3"
      and shape: "(\<forall>a\<in>L. \<forall>b\<in>L. snd a = snd b) \<or> inj_on snd L" for L
  proof -
    from line_mostly_old [OF sub four _ small]
    have x: "(r0, c0) \<in> L" and eq: "set ms = L - {(r0, c0)}" by simp_all
    have fin: "finite L" using four card.infinite by fastforce
    from x fin four have "card (L - {(r0, c0)}) = 3" by simp
    moreover from near x have "\<forall>pos\<in>L. snd pos \<le> c0 + 3 \<and> c0 \<le> snd pos + 3" by fastforce
    moreover from shape x have "(\<forall>pos\<in>L - {(r0, c0)}. snd pos = c0) \<or> inj_on snd (L - {(r0, c0)})"
      by (metis Diff_subset inj_on_subset snd_conv DiffD1)
    moreover from marks have "\<forall>pos\<in>L - {(r0, c0)}. markAt board q pos"
      by (simp add: markAt_dropPiece [OF empty])
    ultimately show ?thesis unfolding eq by blast
  qed
  from win obtain r c where
    "(markAt ?b q (r, c) \<and> markAt ?b q (r, c + 1) \<and>
      markAt ?b q (r, c + 2) \<and> markAt ?b q (r, c + 3)) \<or>
     (markAt ?b q (r, c) \<and> markAt ?b q (r + 1, c) \<and>
      markAt ?b q (r + 2, c) \<and> markAt ?b q (r + 3, c)) \<or>
     (markAt ?b q (r, c) \<and> markAt ?b q (r + 1, c + 1) \<and>
      markAt ?b q (r + 2, c + 2) \<and> markAt ?b q (r + 3, c + 3)) \<or>
     (markAt ?b q (r, c + 3) \<and> markAt ?b q (r + 1, c + 2) \<and>
      markAt ?b q (r + 2, c + 1) \<and> markAt ?b q (r + 3, c))"
    by (rule winning_line)
  then show ?thesis
  proof (elim disjE conjE)
    assume m: "markAt ?b q (r, c)" "markAt ?b q (r, c + 1)"
      "markAt ?b q (r, c + 2)" "markAt ?b q (r, c + 3)"
    from in' [OF m(1)] in' [OF m(2)] in' [OF m(3)] in' [OF m(4)]
    have sub: "{(r, c), (r, c + 1), (r, c + 2), (r, c + 3)}
        \<subseteq> insert (r0, c0) (set ms)"
      by simp
    from m have marks: "\<forall>a\<in>{(r, c), (r, c + 1), (r, c + 2), (r, c + 3)}. markAt ?b q a"
      by simp
    show ?thesis by (rule key [OF marks sub]) (simp_all add: inj_on_def)
  next
    assume m: "markAt ?b q (r, c)" "markAt ?b q (r + 1, c)"
      "markAt ?b q (r + 2, c)" "markAt ?b q (r + 3, c)"
    from in' [OF m(1)] in' [OF m(2)] in' [OF m(3)] in' [OF m(4)]
    have sub: "{(r, c), (r + 1, c), (r + 2, c), (r + 3, c)}
        \<subseteq> insert (r0, c0) (set ms)"
      by simp
    from m have marks: "\<forall>a\<in>{(r, c), (r + 1, c), (r + 2, c), (r + 3, c)}. markAt ?b q a"
      by simp
    show ?thesis by (rule key [OF marks sub]) (simp_all add: inj_on_def)
  next
    assume m: "markAt ?b q (r, c)" "markAt ?b q (r + 1, c + 1)"
      "markAt ?b q (r + 2, c + 2)" "markAt ?b q (r + 3, c + 3)"
    from in' [OF m(1)] in' [OF m(2)] in' [OF m(3)] in' [OF m(4)]
    have sub: "{(r, c), (r + 1, c + 1), (r + 2, c + 2), (r + 3, c + 3)}
        \<subseteq> insert (r0, c0) (set ms)"
      by simp
    from m have marks: "\<forall>a\<in>{(r, c), (r + 1, c + 1), (r + 2, c + 2), (r + 3, c + 3)}. markAt ?b q a"
      by simp
    show ?thesis by (rule key [OF marks sub]) (simp_all add: inj_on_def)
  next
    assume m: "markAt ?b q (r, c + 3)" "markAt ?b q (r + 1, c + 2)"
      "markAt ?b q (r + 2, c + 1)" "markAt ?b q (r + 3, c)"
    from in' [OF m(1)] in' [OF m(2)] in' [OF m(3)] in' [OF m(4)]
    have sub: "{(r, c + 3), (r + 1, c + 2), (r + 2, c + 1), (r + 3, c)}
        \<subseteq> insert (r0, c0) (set ms)"
      by simp
    from m have marks: "\<forall>a\<in>{(r, c + 3), (r + 1, c + 2), (r + 2, c + 1), (r + 3, c)}. markAt ?b q a"
      by simp
    show ?thesis by (rule key [OF marks sub]) (simp_all add: inj_on_def)
  qed
qed

lemma card_columnCells: "card (columnCells c) = 6"
  by (simp add: columnCells_def card_image inj_on_def ROWS_def)

lemma snd_columnCells: "pos \<in> columnCells c \<Longrightarrow> snd pos = c"
  by (auto simp: columnCells_def)

lemma full_column_pieces:
  assumes wf: "wellFormed board" and pi: "piecesIn board ps"
    and c: "c < COLS" and full: "getAvailableRow board c = None"
  shows "columnCells c \<subseteq> set ps"
proof
  fix pos assume "pos \<in> columnCells c"
  then obtain r where pos: "pos = (r, c)" and r: "r < ROWS" by (auto simp: columnCells_def)
  from full r have ne: "cellAt board r c \<noteq> Some Empty"
    by (simp add: getAvailableRow_def scanRows_None)
  from wf r have rl: "r < length board" by (simp add: wellFormed_def)
  with wf c have "c < length (board ! r)" by (simp add: wellFormed_def list_all_length)
  with rl have "cellAt board r c = Some (board ! r ! c)" by (simp add: cellAt_def)
  with ne obtain p' where "cellAt board r c = Some (Mark p')" by (cases "board ! r ! c") auto
  with r c have "markAt board p' (r, c)" by (simp add: markAt_def)
  with pi pos show "pos \<in> set ps" by (auto simp: piecesIn_def)
qed

lemma disjoint_in_list:
  assumes "A \<subseteq> set ps" "B \<subseteq> set ps" "A \<inter> B = {}"
  shows "card A + card B \<le> length ps"
proof -
  have fin: "finite A" "finite B" using assms(1,2) by (auto intro: finite_subset)
  from fin assms(3) have "card A + card B = card (A \<union> B)" by (simp add: card_Un_disjoint)
  also from assms(1,2) have "\<dots> \<le> card (set ps)" by (intro card_mono) auto
  also have "\<dots> \<le> length ps" by (rule card_length)
  finally show ?thesis .
qed

lemma some_move_not_winning:
  assumes wf: "wellFormed board" and mi: "marksIn board q ms" and len: "length ms \<le> 3"
    and pi: "piecesIn board ps" and plen: "length ps \<le> 7"
  shows "\<exists>c row. c \<in> set (getValidColumns board) \<and> getAvailableRow board c = Some row \<and>
           \<not> isWinningMove (dropPiece board row c q) q"
proof (rule ccontr)
  assume "\<not> ?thesis"
  then have all: "\<And>c row. c < COLS \<Longrightarrow> getAvailableRow board c = Some row \<Longrightarrow>
                   isWinningMove (dropPiece board row c q) q"
    by (auto simp: getValidColumns_iff)
  have shape: "card (set ms) = 3 \<and> set ms \<subseteq> set ps \<and>
      (\<forall>pos\<in>set ms. snd pos \<le> c + 3 \<and> c \<le> snd pos + 3) \<and>
      ((\<forall>pos\<in>set ms. snd pos = c) \<or> inj_on snd (set ms))"
    if c: "c < COLS" and row: "getAvailableRow board c = Some row" for c row
  proof -
    from row have e: "cellAt board row c = Some Empty" using getAvailableRow_Some by blast
    from win_shape [OF e mi len all [OF c row]] pi show ?thesis
      by (auto simp: piecesIn_def)
  qed
  have c0: "(0::nat) < COLS" and c6: "(6::nat) < COLS" by (simp_all add: COLS_def)
  show False
  proof (cases "getAvailableRow board 0")
    case None
    note full0 = full_column_pieces [OF wf pi c0 None]
    show False
    proof (cases "getAvailableRow board 6")
      case None
      note full6 = full_column_pieces [OF wf pi c6 None]
      have "columnCells 0 \<inter> columnCells 6 = {}" by (auto simp: columnCells_def)
      from disjoint_in_list [OF full0 full6 this] plen show False
        by (simp add: card_columnCells)
    next
      case (Some row)
      from shape [OF c6 Some] have three: "card (set ms) = 3" and sub: "set ms \<subseteq> set ps"
        and far: "\<forall>pos\<in>set ms. 6 \<le> snd pos + 3" by simp_all
      from far have "columnCells 0 \<inter> set ms = {}" by (fastforce dest: snd_columnCells)
      from disjoint_in_list [OF full0 sub this] plen three show False
        by (simp add: card_columnCells)
    qed
  next
    case (Some row0)
    from shape [OF c0 Some] have three: "card (set ms) = 3" and sub: "set ms \<subseteq> set ps"
      and low: "\<forall>pos\<in>set ms. snd pos \<le> 3"
      and sh: "(\<forall>pos\<in>set ms. snd pos = 0) \<or> inj_on snd (set ms)" by simp_all
    show False
    proof (cases "getAvailableRow board 6")
      case None
      note full6 = full_column_pieces [OF wf pi c6 None]
      from low have "columnCells 6 \<inter> set ms = {}" by (fastforce dest: snd_columnCells)
      from disjoint_in_list [OF full6 sub this] plen three show False
        by (simp add: card_columnCells)
    next
      case (Some row6)
      from shape [OF c6 Some] have high: "\<forall>pos\<in>set ms. 6 \<le> snd pos + 3" by simp
      with low have mid: "\<forall>pos\<in>set ms. snd pos = 3" by fastforce
      from three have "ms \<noteq> []" by auto
      then obtain x where x: "x \<in> set ms" by (cases ms) auto
      with mid have "snd x = 3" by simp
      with x have "\<not> (\<forall>pos\<in>set ms. snd pos = 0)" by force
      with sh have "inj_on snd (set ms)" by simp
      then have "card (snd ` set ms) = 3" using three by (simp add: card_image)
      moreover from mid have "snd ` set ms \<subseteq> {3}" by auto
      then have "card (snd ` set ms) \<le> card {3::nat}" by (intro card_mono) simp_all
      then have "card (snd ` set ms) \<le> 1" by simp
      ultimately show False by simp
    qed
  qed
qed

lemma innerNot_all:
  "innerNot q nodes \<longleftrightarrow>
   (\<forall>n\<in>set nodes. (children n \<noteq> [] \<longrightarrow> outcome n \<noteq> winOf q) \<and> innerNot q (children n))"
proof (induction nodes)
  case Nil
  show ?case by simp
next
  case (Cons n nodes)
  then show ?case by (cases n) auto
qed

lemma innerDraw_from_innerNot: "innerNot P1 nodes \<Longrightarrow> innerNot P2 nodes \<Longrightarrow> innerDraw nodes"
proof (induction nodes rule: innerDraw.induct)
  case 1
  show ?case by simp
next
  case (2 mv oc cs rest)
  then show ?case by (cases oc) (auto simp: winOf_def)
qed

lemma summarize_win_iff:
  "summarizeOutcomes nodes M = winOf M \<longleftrightarrow> (\<exists>n\<in>set nodes. outcome n = winOf M)"
  using winOf_neq_loseOf [of M]
  by (auto simp: summarizeOutcomes_def Let_def list_ex_iff list_all_iff)

lemma summarize_lose_all:
  "summarizeOutcomes nodes M = loseOf M \<Longrightarrow> (\<forall>n\<in>set nodes. outcome n = loseOf M)"
  using winOf_neq_loseOf [of M]
  by (auto simp: summarizeOutcomes_def Let_def list_ex_iff list_all_iff split: if_splits)

lemma other_player: "p \<noteq> q \<Longrightarrow> other p = q" "p \<noteq> q \<Longrightarrow> winOf q = loseOf p"
  "other q \<noteq> q" "winOf p = winOf q \<longleftrightarrow> p = q"
  by (cases p; cases q; simp add: other_def winOf_def loseOf_def)+

lemma sentinel_facts: "innerNot q [sentinel]" "outcome sentinel \<noteq> winOf q"
  by (simp_all add: sentinel_def winOf_def)

lemma no_forced:
  "wellFormed board \<Longrightarrow> marksIn board q ms \<Longrightarrow> piecesIn board ps \<Longrightarrow>
   length ms + (n + (if p = q then 1 else 0)) div 2 \<le> 4 \<Longrightarrow> length ps + n \<le> 8 \<Longrightarrow>
   innerNot q (exploreGameTree board p (int n)) \<and>
   (if p = q then (\<exists>node\<in>set (exploreGameTree board p (int n)). outcome node \<noteq> winOf q)
    else (\<forall>node\<in>set (exploreGameTree board p (int n)). outcome node \<noteq> winOf q))"
proof (induction n arbitrary: board p ms ps)
  case 0
  have "exploreGameTree board p (int 0) = [sentinel]" by (simp add: exploreGameTree_base)
  with sentinel_facts [of q] show ?case by auto
next
  case (Suc n)
  let ?d = "int (Suc n)"
  let ?F = "exploreGameTree board p ?d"
  show ?case
  proof (cases "getValidColumns board = []")
    case True
    then have "?F = [sentinel]" by (simp add: exploreGameTree_base)
    with sentinel_facts [of q] show ?thesis by auto
  next
    case False
    have d: "?d \<noteq> 0" by simp
    have F: "?F = map (plainNode board p ?d) (centerFirst (getValidColumns board))"
      using d False by (rule exploreGameTree_step)
    have dm: "?d - 1 = int n" by simp
    show ?thesis
    proof (cases "p = q")
      case True
      then have wq: "winOf q = winOf p" by simp
      have sub: "innerNot q (exploreGameTree (dropPiece board row c p) (other p) (int n)) \<and>
          (\<forall>node\<in>set (exploreGameTree (dropPiece board row c p) (other p) (int n)).
             outcome node \<noteq> winOf q)"
        if row: "getAvailableRow board c = Some row" for c row
      proof -
        from row have e: "cellAt board row c = Some Empty" using getAvailableRow_Some by blast
        from Suc.prems(4) True have "length ((row, c) # ms) + (n + (if other p = q then 1 else 0)) div 2 \<le> 4"
          using other_player(3) [of q] by simp
        moreover from Suc.prems(5) have "length ((row, c) # ps) + n \<le> 8" by simp
        moreover from Suc.prems(2) True have "marksIn (dropPiece board row c p) q ((row, c) # ms)"
          using marksIn_drop_same [OF e] by simp
        ultimately show ?thesis
          using Suc.IH [where board = "dropPiece board row c p" and ms = "(row, c) # ms"
              and ps = "(row, c) # ps" and p = "other p"]
            wellFormed_dropPiece [OF Suc.prems(1)] piecesIn_drop [OF e Suc.prems(3)]
            other_player(3) [of q] True
          by simp
      qed
      have node: "(children (plainNode board p ?d c) \<noteq> [] \<longrightarrow>
                     outcome (plainNode board p ?d c) \<noteq> winOf q) \<and>
                  innerNot q (children (plainNode board p ?d c))"
        if c: "c \<in> set (getValidColumns board)" for c
      proof -
        from c obtain row where row: "getAvailableRow board c = Some row"
          by (auto simp: getValidColumns_iff)
        show ?thesis
        proof (cases "isWinningMove (dropPiece board row c p) p")
          case win: True
          with row show ?thesis by (simp add: plainNode_win)
        next
          case nowin: False
          from sub [OF row] show ?thesis unfolding wq
            by (simp add: plainNode_deep [OF row nowin] summarize_win_iff)
        qed
      qed
      have inner: "innerNot q ?F"
      proof (subst innerNot_all, rule ballI)
        fix nd assume "nd \<in> set ?F"
        then obtain c where "c \<in> set (getValidColumns board)" "nd = plainNode board p ?d c"
          unfolding F by auto
        with node show "(children nd \<noteq> [] \<longrightarrow> outcome nd \<noteq> winOf q) \<and> innerNot q (children nd)"
          by blast
      qed
      from Suc.prems(4) True have "length ms \<le> 3" by simp
      moreover from Suc.prems(5) have "length ps \<le> 7" by simp
      ultimately obtain c row where c: "c \<in> set (getValidColumns board)"
        and row: "getAvailableRow board c = Some row"
        and nowin: "\<not> isWinningMove (dropPiece board row c q) q"
        using some_move_not_winning [OF Suc.prems(1,2) _ Suc.prems(3)] by blast
      from nowin True have nowin': "\<not> isWinningMove (dropPiece board row c p) p" by simp
      from sub [OF row] have "outcome (plainNode board p ?d c) \<noteq> winOf q" unfolding wq
        by (simp add: plainNode_deep [OF row nowin'] summarize_win_iff)
      moreover from c have "plainNode board p ?d c \<in> set ?F" unfolding F by simp
      ultimately show ?thesis using inner True by auto
    next
      case False
      note pq = other_player(1,2) [OF False]
      have sub: "innerNot q (exploreGameTree (dropPiece board row c p) q (int n)) \<and>
          (\<exists>node\<in>set (exploreGameTree (dropPiece board row c p) q (int n)).
             outcome node \<noteq> winOf q)"
        if row: "getAvailableRow board c = Some row" for c row
      proof -
        from row have e: "cellAt board row c = Some Empty" using getAvailableRow_Some by blast
        from Suc.prems(4) False have "length ms + (n + (if q = q then 1 else 0)) div 2 \<le> 4"
          by simp
        moreover from Suc.prems(5) have "length ((row, c) # ps) + n \<le> 8" by simp
        moreover from Suc.prems(2) False have "marksIn (dropPiece board row c p) q ms"
          using marksIn_drop_other [OF e] by simp
        ultimately show ?thesis
          using Suc.IH [where board = "dropPiece board row c p" and ms = ms
              and ps = "(row, c) # ps" and p = q]
            wellFormed_dropPiece [OF Suc.prems(1)] piecesIn_drop [OF e Suc.prems(3)]
          by simp
      qed
      have node: "outcome (plainNode board p ?d c) \<noteq> winOf q \<and>
                  innerNot q (children (plainNode board p ?d c))"
        if c: "c \<in> set (getValidColumns board)" for c
      proof -
        from c obtain row where row: "getAvailableRow board c = Some row"
          by (auto simp: getValidColumns_iff)
        show ?thesis
        proof (cases "isWinningMove (dropPiece board row c p) p")
          case win: True
          with row False show ?thesis by (simp add: plainNode_win other_player(4))
        next
          case nowin: False
          from sub [OF row] obtain node
            where "node \<in> set (exploreGameTree (dropPiece board row c p) q (int n))"
              and "outcome node \<noteq> loseOf p" unfolding pq(2) by blast
          then have "summarizeOutcomes (exploreGameTree (dropPiece board row c p) q (int n)) p
                     \<noteq> loseOf p"
            using summarize_lose_all by blast
          with sub [OF row] show ?thesis
            by (simp add: plainNode_deep [OF row nowin] dm pq)
        qed
      qed
      have "innerNot q ?F"
      proof (subst innerNot_all, rule ballI)
        fix nd assume "nd \<in> set ?F"
        then obtain c where "c \<in> set (getValidColumns board)" "nd = plainNode board p ?d c"
          unfolding F by auto
        with node show "(children nd \<noteq> [] \<longrightarrow> outcome nd \<noteq> winOf q) \<and> innerNot q (children nd)"
          by blast
      qed
      moreover have "\<forall>node\<in>set ?F. outcome node \<noteq> winOf q"
      proof
        fix nd assume "nd \<in> set ?F"
        then obtain c where "c \<in> set (getValidColumns board)" "nd = plainNode board p ?d c"
          unfolding F by auto
        with node show "outcome nd \<noteq> winOf q" by blast
      qed
      ultimately show ?thesis using False by simp
    qed
  qed
qed

lemma createBoard_no_marks: "\<not> markAt createBoard q pos"
  by (auto simp: markAt_def cellAt_def createBoard_def)

lemma createBoard_lists: "marksIn createBoard q []" "piecesIn createBoard []"
  by (simp_all add: marksIn_def piecesIn_def createBoard_no_marks)

lemma depth8_inner:
  "innerNot q (exploreGameTree createBoard P1 8) \<and>
   (q = P2 \<longrightarrow> (\<forall>node\<in>set (exploreGameTree createBoard P1 8). outcome node \<noteq> winOf q))"
  using no_forced [where board = createBoard and q = q and ms = "[]" and ps = "[]"
      and n = 8 and p = P1] wf_boards(1) createBoard_lists(1) [of q] createBoard_lists(2)
  by (cases q) simp_all

lemma depth8_roots_have_children:
  assumes "node \<in> set (exploreGameTree createBoard P1 8)"
  shows "children node \<noteq> []"
proof -
  from assms show ?thesis
  proof (cases rule: explore_node_cases)
    case sentinel
    have "getValidColumns createBoard \<noteq> []" by code_simp
    then have "exploreGameTree createBoard P1 8 =
        map (plainNode createBoard P1 8) (centerFirst (getValidColumns createBoard))"
      by (intro exploreGameTree_step) simp_all
    with assms sentinel obtain c where "sentinel = plainNode createBoard P1 8 c" by auto
    then have "move sentinel = move (plainNode createBoard P1 8 c)" by simp
    then show ?thesis by (simp add: sentinel_def plainNode_def Let_def split: if_splits)
  next
    case (col c)
    then obtain row where row: "getAvailableRow createBoard c = Some row"
      by (auto simp: getValidColumns_iff)
    then have e: "cellAt createBoard row c = Some Empty" using getAvailableRow_Some by blast
    have "\<not> isWinningMove (dropPiece createBoard row c P1) P1"
    proof
      assume "isWinningMove (dropPiece createBoard row c P1) P1"
      from win_shape [OF e createBoard_lists(1) _ this] show False by simp
    qed
    with col row exploreGameTree_nonempty show ?thesis by (simp add: plainNode_deep)
  qed
qed

lemma depth8_all_draw:
  "map outcome (exploreGameTree createBoard P1 8) = [DRAW, DRAW, DRAW, DRAW, DRAW, DRAW, DRAW] \<and>
   innerDraw (exploreGameTree createBoard P1 8)"
proof -
  let ?F = "exploreGameTree createBoard P1 8"
  have i1: "innerNot P1 ?F" and i2: "innerNot P2 ?F" using depth8_inner by blast+
  have draw: "outcome node = DRAW" if n: "node \<in> set ?F" for node
  proof -
    from depth8_roots_have_children [OF n] i1 n have "outcome node \<noteq> winOf P1"
      unfolding innerNot_all [of P1 ?F] by blast
    moreover from depth8_inner [of P2] n have "outcome node \<noteq> winOf P2" by blast
    ultimately show ?thesis by (cases "outcome node") (simp_all add: winOf_def)
  qed
  have "getValidColumns createBoard \<noteq> []" by code_simp
  then have "?F = map (plainNode createBoard P1 8) (centerFirst (getValidColumns createBoard))"
    by (intro exploreGameTree_step) simp_all
  then have "length ?F = length (getValidColumns createBoard)" by simp
  also have "\<dots> = 7" by code_simp
  finally have len: "length ?F = 7" .
  have "map outcome ?F = replicate (length ?F) DRAW"
    using draw by (simp add: map_replicate_const [symmetric] cong: map_cong)
  with len have "map outcome ?F = replicate 7 DRAW" by simp
  then have "map outcome ?F = [DRAW, DRAW, DRAW, DRAW, DRAW, DRAW, DRAW]"
    by (simp add: eval_nat_numeral)
  with innerDraw_from_innerNot [OF i1 i2] show ?thesis by simp
qed

text \<open>
  Claim C9, as amended. From the empty board, with player 1 to move and depth budget 8,
  the forest of \<open>exploreGameTree\<close> contains no forced win: each of its seven root nodes
  has outcome \<open>DRAW\<close>, and so has every node at any depth that has children. It does
  contain childless nodes won by player 1, so \<open>findShortestWinningPath\<close> returns a move
  sequence for \<open>WIN_P1\<close>. The sequence is not empty, it is the root path of such a node,
  and its moves alternate between the players starting with player 1 (even indices, from
  0, are moves of player 1 and odd ones moves of player 2): played in that way from the
  empty board each move is legal and the last one, a move of player 1, completes four in
  a line. Its length is odd and at most 7.
\<close>

theorem empty_board_depth8:
  "map outcome (exploreGameTree createBoard P1 8) = [DRAW, DRAW, DRAW, DRAW, DRAW, DRAW, DRAW] \<and>
   innerDraw (exploreGameTree createBoard P1 8) \<and>
   (\<exists>path. findShortestWinningPath (exploreGameTree createBoard P1 8) WIN_P1 = Some path \<and>
          path \<noteq> [] \<and> hitAt WIN_P1 (exploreGameTree createBoard P1 8) path \<and>
          winningLine createBoard P1 path WIN_P1 \<and> odd (length path) \<and> length path \<le> 7)"
proof -
  let ?forest = "exploreGameTree createBoard P1 8"
  have "winningLine createBoard P1 [3, 3, 2, 3, 4, 3, 1] WIN_P1" by code_simp
  then have found: "hitAt WIN_P1 ?forest [3, 3, 2, 3, 4, 3, 1]"
    by (rule winningLine_is_hit) simp
  then have "findShortestWinningPath ?forest WIN_P1 \<noteq> None"
    unfolding shortest_None_iff by blast
  then obtain path where path: "findShortestWinningPath ?forest WIN_P1 = Some path" by blast
  from shortest_is_minimal_hit [OF path]
  have hit: "hitAt WIN_P1 ?forest path"
    and least: "\<forall>q. hitAt WIN_P1 ?forest q \<longrightarrow> length path \<le> length q" by simp_all
  from hit have line: "winningLine createBoard P1 path WIN_P1"
    by (rule hit_is_winningLine) simp
  from winningLine_parity [OF line] have "odd (length path)" by (simp add: winOf_def)
  moreover from least found have "length path \<le> 7" by fastforce
  moreover from line have "path \<noteq> []" by auto
  ultimately have "\<exists>path. findShortestWinningPath ?forest WIN_P1 = Some path \<and>
          path \<noteq> [] \<and> hitAt WIN_P1 ?forest path \<and>
          winningLine createBoard P1 path WIN_P1 \<and> odd (length path) \<and> length path \<le> 7"
    using path hit line by blast
  with depth8_all_draw show ?thesis by blast
qed

text \<open>
  The claim C9 as stated fails: the depth-8 forest of the empty board holds no forced win
  for player 1. None of the seven root nodes is classified \<open>WIN_P1\<close> by the
  summarization, all are \<open>DRAW\<close>, and no node with children at any depth carries a
  decisive outcome.
\<close>

theorem no_forced_win_at_depth8:
  "map outcome (exploreGameTree createBoard P1 8) = [DRAW, DRAW, DRAW, DRAW, DRAW, DRAW, DRAW] \<and>
   innerDraw (exploreGameTree createBoard P1 8)"
  by (rule depth8_all_draw)

end
